theory Spec2Isabelle
  imports Complex_Main "HOL-Library.FSet"
begin

section \<open>Strings\<close>

text \<open>
  A Python \<open>str\<close> is modelled as a \<open>string\<close> whose characters stand for the
  code points below 256. The helpers below are the \<open>str\<close> methods that
  \<open>crawler.py\<close> and \<open>urllib.parse\<close> call.
\<close>

definition rstrip :: "char set \<Rightarrow> string \<Rightarrow> string" where
  \<comment> \<open>\<open>s.rstrip(chars)\<close>\<close>
  "rstrip cs s = rev (dropWhile (\<lambda>c. c \<in> cs) (rev s))"

definition lstrip :: "char set \<Rightarrow> string \<Rightarrow> string" where
  \<comment> \<open>\<open>s.lstrip(chars)\<close>\<close>
  "lstrip cs s = dropWhile (\<lambda>c. c \<in> cs) s"

definition strip :: "char set \<Rightarrow> string \<Rightarrow> string" where
  "strip cs s = rstrip cs (lstrip cs s)"

definition find_from :: "char \<Rightarrow> string \<Rightarrow> nat \<Rightarrow> nat option" where
  \<comment> \<open>\<open>s.find(c, start)\<close> for a one-character \<open>c\<close>; \<open>None\<close> stands for -1\<close>
  "find_from c s start =
     (let k = start + length (takeWhile (\<lambda>x. x \<noteq> c) (drop start s))
      in if k < length s then Some k else None)"

definition rfind :: "char \<Rightarrow> string \<Rightarrow> nat option" where
  \<comment> \<open>\<open>s.rfind(c)\<close>\<close>
  "rfind c s =
     (if c \<in> set s then Some (length s - Suc (length (takeWhile (\<lambda>x. x \<noteq> c) (rev s))))
      else None)"

definition split1 :: "char \<Rightarrow> string \<Rightarrow> string \<times> string" where
  \<comment> \<open>\<open>s.split(c, 1)\<close> when \<open>c\<close> occurs in \<open>s\<close>; also the outer parts of
      \<open>s.partition(c)\<close>\<close>
  "split1 c s = (takeWhile (\<lambda>x. x \<noteq> c) s, drop 1 (dropWhile (\<lambda>x. x \<noteq> c) s))"


fun split_all :: "char \<Rightarrow> string \<Rightarrow> string list" where
  \<comment> \<open>\<open>s.split(c)\<close>\<close>
  "split_all c [] = [[]]"
| "split_all c (x # xs) =
     (if x = c then [] # split_all c xs
      else (case split_all c xs of [] \<Rightarrow> [[x]] | p # ps \<Rightarrow> (x # p) # ps))"

fun join :: "string \<Rightarrow> string list \<Rightarrow> string" where
  \<comment> \<open>\<open>sep.join(parts)\<close>\<close>
  "join sep [] = []"
| "join sep [p] = p"
| "join sep (p # ps) = p @ sep @ join sep ps"

definition lower_char :: "char \<Rightarrow> char" where
  "lower_char c =
     (let n = of_char c :: nat
      in if (65 \<le> n \<and> n \<le> 90) \<or> (192 \<le> n \<and> n \<le> 222 \<and> n \<noteq> 215)
         then char_of (n + 32) else c)"

definition lower :: "string \<Rightarrow> string" where
  \<comment> \<open>\<open>s.lower()\<close>\<close>
  "lower s = map lower_char s"

section \<open>The collaborators\<close>

text \<open>
  The exceptions, all of them subclasses of \<open>Exception\<close>: the \<open>RequestException\<close> of
  \<open>requests\<close>, \<open>ValueError\<close>, \<open>IndexError\<close>, \<open>OverflowError\<close>, and any other
  one. \<open>KeyboardInterrupt\<close> and \<open>SystemExit\<close> are outside the model.
\<close>

datatype exn = RequestException | ValueError | IndexError | OverflowError | OtherException

text \<open>
  The number given as \<open>delay\<close>: a Python \<open>float\<close> is a finite value, an infinity or
  not a number (an \<open>int\<close> is a finite value).
\<close>

datatype pyfloat = Float real | PlusInf | MinusInf | NaN

text \<open>
  What \<open>session.get\<close> hands back: it raises, or it returns a response with a status
  code and a body.
\<close>

datatype response = Raises exn | Response nat string

definition raise_for_status :: "nat \<Rightarrow> exn + unit" where
  \<comment> \<open>\<open>requests\<close>: an \<open>HTTPError\<close> (a \<open>RequestException\<close>) for a 4xx or 5xx status\<close>
  "raise_for_status status_code =
     (if 400 \<le> status_code \<and> status_code < 600 then Inl RequestException else Inr ())"

text \<open>The tree a \<open>BeautifulSoup\<close> parse returns.\<close>

datatype node =
    Tag (tag_name: string) (attrs: "string \<Rightarrow> string option") (contents: "node list")
  | NavigableString string

text \<open>
  The environment of a crawl: the HTTP session (its answer may depend on the requests
  made before), the HTML parser, the iteration order of a Python \<open>set\<close> of strings
  (given the elements in insertion order), the validity check of a bracketed host
  that \<open>urlsplit\<close> delegates to the \<open>ipaddress\<close> module, and \<open>time.sleep\<close>, which
  returns or raises according to the length it is given.
\<close>

record env =
  session_get :: "string list \<Rightarrow> string \<Rightarrow> response"
  BeautifulSoup :: "string \<Rightarrow> exn + node"
  set_order :: "string list \<Rightarrow> string list"
  check_bracketed_host :: "string \<Rightarrow> bool"
  time_sleep :: "pyfloat \<Rightarrow> exn + unit"

text \<open>
  \<open>time.sleep\<close> as CPython 3.11 has it where the timestamp counts nanoseconds in 64
  bits: \<open>ValueError\<close> for not-a-number, \<open>OverflowError\<close> for a length beyond the
  range of the timestamp, \<open>ValueError\<close> for a negative length. (At the very end of the
  range the rounding of the floating-point product decides; the examples stay away from
  it.) It is the \<open>time_sleep\<close> of the example environments.
\<close>

definition cpython_sleep :: "pyfloat \<Rightarrow> exn + unit" where
  "cpython_sleep secs =
     (case secs of
        NaN \<Rightarrow> Inl ValueError
      | PlusInf \<Rightarrow> Inl OverflowError
      | MinusInf \<Rightarrow> Inl OverflowError
      | Float r \<Rightarrow>
          if 2 ^ 63 < \<bar>r\<bar> * 10 ^ 9 then Inl OverflowError
          else if r < 0 then Inl ValueError
          else Inr ())"

section \<open>urllib.parse\<close>

definition uses_relative :: "string list" where
  "uses_relative = ['''', ''ftp'', ''http'', ''gopher'', ''nntp'', ''imap'',
     ''wais'', ''file'', ''https'', ''shttp'', ''mms'',
     ''prospero'', ''rtsp'', ''rtsps'', ''rtspu'', ''sftp'',
     ''svn'', ''svn+ssh'', ''ws'', ''wss'']"

definition uses_netloc :: "string list" where
  "uses_netloc = ['''', ''ftp'', ''http'', ''gopher'', ''nntp'', ''telnet'',
     ''imap'', ''wais'', ''file'', ''mms'', ''https'', ''shttp'',
     ''snews'', ''prospero'', ''rtsp'', ''rtsps'', ''rtspu'', ''rsync'',
     ''svn'', ''svn+ssh'', ''sftp'', ''nfs'', ''git'', ''git+ssh'',
     ''ws'', ''wss'']"

definition uses_params :: "string list" where
  "uses_params = ['''', ''ftp'', ''hdl'', ''prospero'', ''http'', ''imap'',
     ''https'', ''shttp'', ''rtsp'', ''rtsps'', ''rtspu'', ''sip'',
     ''sips'', ''mms'', ''sftp'', ''tel'']"

definition is_ascii_alpha :: "char \<Rightarrow> bool" where
  "is_ascii_alpha c =
     (let n = of_char c :: nat in (65 \<le> n \<and> n \<le> 90) \<or> (97 \<le> n \<and> n \<le> 122))"

definition scheme_char :: "char \<Rightarrow> bool" where
  \<comment> \<open>\<open>c in scheme_chars\<close>: letters, digits, \<open>+\<close>, \<open>-\<close>, \<open>.\<close>\<close>
  "scheme_char c =
     (let n = of_char c :: nat
      in is_ascii_alpha c \<or> (48 \<le> n \<and> n \<le> 57) \<or> n = 43 \<or> n = 45 \<or> n = 46)"

definition c0_control_or_space :: "char set" where
  "c0_control_or_space = {c. (of_char c :: nat) \<le> 32}"

definition remove_unsafe :: "string \<Rightarrow> string" where
  \<comment> \<open>tab, carriage return and line feed are dropped\<close>
  "remove_unsafe s = filter (\<lambda>c. (of_char c :: nat) \<notin> {9, 13, 10}) s"

record parse_result =
  scheme :: string
  netloc :: string
  path :: string
  params :: string
  query :: string
  fragment :: string

definition splitnetloc :: "string \<Rightarrow> nat \<Rightarrow> string \<times> string" where
  "splitnetloc url start =
     (let delim = fold (\<lambda>c d. case find_from c url start of None \<Rightarrow> d | Some w \<Rightarrow> min d w)
                    ''/?#'' (length url)
      in (take (delim - start) (drop start url), drop delim url))"

definition bracketed_host :: "string \<Rightarrow> string" where
  \<comment> \<open>\<open>netloc.partition('[')[2].partition(']')[0]\<close>\<close>
  "bracketed_host nl = fst (split1 CHR '']'' (snd (split1 CHR ''['' nl)))"

definition urlsplit :: "env \<Rightarrow> string \<Rightarrow> string \<Rightarrow> exn + parse_result" where
  \<comment> \<open>\<open>urlsplit(url, scheme)\<close> with fragments allowed, as every caller here has it;
      \<open>params\<close> is left empty. The NFKC check of the netloc never fires on code
      points below 256.\<close>
  "urlsplit E url0 scheme0 =
     (let url1 = remove_unsafe (lstrip c0_control_or_space url0);
          scheme1 = remove_unsafe (strip c0_control_or_space scheme0);
          (scheme2, url2) =
            (case find_from CHR '':'' url1 0 of
               None \<Rightarrow> (scheme1, url1)
             | Some i \<Rightarrow>
                 if 0 < i \<and> is_ascii_alpha (hd url1) \<and> list_all scheme_char (take i url1)
                 then (lower (take i url1), drop (Suc i) url1)
                 else (scheme1, url1));
          (netloc3, url3) =
            (if take 2 url2 = ''//'' then splitnetloc url2 2 else ([], url2));
          (url4, fragment4) =
            (if CHR ''#'' \<in> set url3 then split1 CHR ''#'' url3 else (url3, []));
          (url5, query5) =
            (if CHR ''?'' \<in> set url4 then split1 CHR ''?'' url4 else (url4, []))
      in if take 2 url2 = ''//'' \<and>
            ((CHR ''['' \<in> set netloc3 \<and> CHR '']'' \<notin> set netloc3) \<or>
             (CHR '']'' \<in> set netloc3 \<and> CHR ''['' \<notin> set netloc3))
         then Inl ValueError
         else if take 2 url2 = ''//'' \<and> CHR ''['' \<in> set netloc3 \<and> CHR '']'' \<in> set netloc3 \<and>
                 \<not> check_bracketed_host E (bracketed_host netloc3)
         then Inl ValueError
         else Inr \<lparr>scheme = scheme2, netloc = netloc3, path = url5, params = [],
                    query = query5, fragment = fragment4\<rparr>)"

definition splitparams :: "string \<Rightarrow> string \<times> string" where
  \<comment> \<open>called on a \<open>url\<close> that holds a \<open>;\<close> only\<close>
  "splitparams url =
     (case (if CHR ''/'' \<in> set url then find_from CHR '';'' url (the (rfind CHR ''/'' url))
            else find_from CHR '';'' url 0) of
        None \<Rightarrow> (url, [])
      | Some i \<Rightarrow> (take i url, drop (Suc i) url))"

definition urlparse :: "env \<Rightarrow> string \<Rightarrow> string \<Rightarrow> exn + parse_result" where
  "urlparse E url scheme0 =
     (case urlsplit E url scheme0 of
        Inl e \<Rightarrow> Inl e
      | Inr r \<Rightarrow>
          if scheme r \<in> set uses_params \<and> CHR '';'' \<in> set (path r)
          then (let (u, p) = splitparams (path r) in Inr (r\<lparr>path := u, params := p\<rparr>))
          else Inr r)"

definition urlunsplit :: "parse_result \<Rightarrow> string" where
  \<comment> \<open>reads scheme, netloc, path, query and fragment\<close>
  "urlunsplit r =
     (let url1 =
            (if netloc r \<noteq> [] \<or> (scheme r \<noteq> [] \<and> scheme r \<in> set uses_netloc) \<or>
                take 2 (path r) = ''//''
             then ''//'' @ netloc r @
                  (if path r \<noteq> [] \<and> take 1 (path r) \<noteq> ''/'' then ''/'' @ path r else path r)
             else path r);
          url2 = (if scheme r \<noteq> [] then scheme r @ '':'' @ url1 else url1);
          url3 = (if query r \<noteq> [] then url2 @ ''?'' @ query r else url2)
      in if fragment r \<noteq> [] then url3 @ ''#'' @ fragment r else url3)"

definition urlunparse :: "parse_result \<Rightarrow> string" where
  "urlunparse r =
     urlunsplit (if params r \<noteq> [] then r\<lparr>path := path r @ '';'' @ params r\<rparr> else r)"

definition urldefrag :: "env \<Rightarrow> string \<Rightarrow> exn + string" where
  \<comment> \<open>the first component of \<open>urldefrag(url)\<close>\<close>
  "urldefrag E url =
     (if CHR ''#'' \<in> set url
      then (case urlparse E url [] of
              Inl e \<Rightarrow> Inl e
            | Inr r \<Rightarrow> Inr (urlunparse (r\<lparr>fragment := []\<rparr>)))
      else Inr url)"

fun resolve_segments :: "string list \<Rightarrow> string list \<Rightarrow> string list" where
  \<comment> \<open>the loop of \<open>urljoin\<close> over \<open>segments\<close>, with \<open>resolved_path\<close> as accumulator\<close>
  "resolve_segments [] resolved = resolved"
| "resolve_segments (seg # segs) resolved =
     (if seg = ''..'' then resolve_segments segs (butlast resolved)
      else if seg = ''.'' then resolve_segments segs resolved
      else resolve_segments segs (resolved @ [seg]))"

definition urljoin :: "env \<Rightarrow> string \<Rightarrow> string \<Rightarrow> exn + string" where
  "urljoin E base_url url =
     (if base_url = [] then Inr url
      else if url = [] then Inr base_url
      else
        case urlparse E base_url [] of
          Inl e \<Rightarrow> Inl e
        | Inr b \<Rightarrow>
           (case urlparse E url (scheme b) of
              Inl e \<Rightarrow> Inl e
            | Inr u \<Rightarrow>
                if scheme u \<noteq> scheme b \<or> scheme u \<notin> set uses_relative then Inr url
                else if scheme u \<in> set uses_netloc \<and> netloc u \<noteq> [] then Inr (urlunparse u)
                else
                  let u1 = (if scheme u \<in> set uses_netloc then u\<lparr>netloc := netloc b\<rparr> else u)
                  in if path u1 = [] \<and> params u1 = []
                     then Inr (urlunparse
                            (u1\<lparr>path := path b, params := params b,
                                query := (if query u1 = [] then query b else query u1)\<rparr>))
                     else
                       let base_parts0 = split_all CHR ''/'' (path b);
                           base_parts = (if last base_parts0 \<noteq> [] then butlast base_parts0
                                         else base_parts0);
                           segments =
                             (if take 1 (path u1) = ''/'' then split_all CHR ''/'' (path u1)
                              else
                                let segs = base_parts @ split_all CHR ''/'' (path u1)
                                in take 1 segs @
                                   filter (\<lambda>s. s \<noteq> []) (butlast (drop 1 segs)) @
                                   (if 1 < length segs then [last segs] else []));
                           resolved0 = resolve_segments segments [];
                           resolved = (if last segments \<in> {''.'', ''..''} then resolved0 @ [[]]
                                       else resolved0);
                           joined = join ''/'' resolved
                       in Inr (urlunparse
                                (u1\<lparr>path := (if joined = [] then ''/'' else joined)\<rparr>))))"

section \<open>crawler.py\<close>

definition is_same_domain :: "env \<Rightarrow> string \<Rightarrow> string \<Rightarrow> bool" where
  "is_same_domain E base_url url =
     (case urlparse E base_url [] of
        Inl e \<Rightarrow> False
      | Inr b \<Rightarrow> (case urlparse E url [] of Inl e \<Rightarrow> False | Inr u \<Rightarrow> netloc b = netloc u))"

subsection \<open>Extraction\<close>

definition get_attr :: "node \<Rightarrow> string \<Rightarrow> string option" where
  \<comment> \<open>\<open>tag.get(key)\<close>\<close>
  "get_attr t k = (case t of Tag n a cs \<Rightarrow> a k | NavigableString x \<Rightarrow> None)"

fun descendants :: "node \<Rightarrow> node list" where
  \<comment> \<open>document order, the node itself left out\<close>
  "descendants (Tag n a cs) = concat (map (\<lambda>c. c # descendants c) cs)"
| "descendants (NavigableString x) = []"

definition find_all :: "string list \<Rightarrow> node \<Rightarrow> node list" where
  \<comment> \<open>\<open>tag.find_all(names)\<close>\<close>
  "find_all names tree =
     filter (\<lambda>t. case t of Tag n a cs \<Rightarrow> n \<in> set names | NavigableString x \<Rightarrow> False)
       (descendants tree)"

definition find_all_href :: "node \<Rightarrow> node list" where
  \<comment> \<open>\<open>soup.find_all('a', href=True)\<close>\<close>
  "find_all_href tree = filter (\<lambda>t. get_attr t ''href'' \<noteq> None) (find_all [''a''] tree)"

fun links_loop :: "env \<Rightarrow> string \<Rightarrow> node list \<Rightarrow> string list \<Rightarrow> exn + string list" where
  \<comment> \<open>the set \<open>links\<close> is kept as the list of its elements in insertion order\<close>
  "links_loop E page_url [] links = Inr links"
| "links_loop E page_url (a_tag # rest) links =
     (case urljoin E page_url (case get_attr a_tag ''href'' of None \<Rightarrow> [] | Some h \<Rightarrow> h) of
        Inl e \<Rightarrow> Inl e
      | Inr absolute_url \<Rightarrow>
          links_loop E page_url rest
            (if absolute_url \<in> set links then links else links @ [absolute_url]))"

definition extract_links :: "env \<Rightarrow> string \<Rightarrow> string \<Rightarrow> exn + string list" where
  "extract_links E html page_url =
     (case BeautifulSoup E html of
        Inl e \<Rightarrow> Inl e
      | Inr soup \<Rightarrow>
          (case links_loop E page_url (find_all_href soup) [] of
             Inl e \<Rightarrow> Inl e
           | Inr links \<Rightarrow> Inr (set_order E links)))"

text \<open>
  The dictionaries \<open>input_info\<close> and \<open>form_info\<close> have fixed keys; they are
  records, the keys \<open>name\<close>, \<open>type\<close>, \<open>value\<close>, \<open>method\<close>, \<open>action\<close> and
  \<open>inputs\<close> prefixed.
\<close>

record input_info =
  input_name :: "string option"
  input_type :: "string option"
  input_value :: "string option"

record form_info =
  form_method :: string
  form_action :: string
  form_inputs :: "input_info list"

fun inputs_loop :: "node list \<Rightarrow> input_info list \<Rightarrow> input_info list" where
  "inputs_loop [] inputs = inputs"
| "inputs_loop (input_tag # rest) inputs =
     inputs_loop rest
       (inputs @ [\<lparr>input_name = get_attr input_tag ''name'',
                    input_type = get_attr input_tag ''type'',
                    input_value = get_attr input_tag ''value''\<rparr>])"

fun forms_loop :: "env \<Rightarrow> string \<Rightarrow> node list \<Rightarrow> form_info list \<Rightarrow> exn + form_info list" where
  "forms_loop E page_url [] forms = Inr forms"
| "forms_loop E page_url (form_tag # rest) forms =
     (let m = lower (case get_attr form_tag ''method'' of None \<Rightarrow> ''get'' | Some v \<Rightarrow> v)
      in case urljoin E page_url
                (case get_attr form_tag ''action'' of None \<Rightarrow> [] | Some v \<Rightarrow> v) of
           Inl e \<Rightarrow> Inl e
         | Inr a \<Rightarrow>
             forms_loop E page_url rest
               (forms @ [\<lparr>form_method = m, form_action = a,
                           form_inputs =
                             inputs_loop
                               (find_all [''input'', ''textarea'', ''select''] form_tag) []\<rparr>]))"

definition extract_forms :: "env \<Rightarrow> string \<Rightarrow> string \<Rightarrow> exn + form_info list" where
  "extract_forms E html page_url =
     (case BeautifulSoup E html of
        Inl e \<Rightarrow> Inl e
      | Inr soup \<Rightarrow> forms_loop E page_url (find_all [''form''] soup) [])"

subsection \<open>The crawler\<close>

text \<open>
  The fields of a \<open>Crawler\<close>; the session is in the environment, and \<open>session_log\<close>
  is the list of the URLs that were requested from it, oldest first.
\<close>

record crawler =
  base :: string
  max_pages :: int
  delay :: pyfloat
  visited :: "string fset"
  queue :: "string list"
  pages :: "string \<Rightarrow> string option"
  forms :: "string \<Rightarrow> form_info list option"
  session_log :: "string list"

definition Crawler_init :: "string \<Rightarrow> int \<Rightarrow> pyfloat \<Rightarrow> crawler" where
  \<comment> \<open>\<open>Crawler.__init__\<close>; the session is the environment's, and what is printed is
      left out, here and in the loop\<close>
  "Crawler_init base_url maxp d =
     \<lparr>base = rstrip {CHR ''/''} base_url, max_pages = maxp, delay = d, visited = {||},
      queue = [rstrip {CHR ''/''} base_url], pages = Map.empty, forms = Map.empty,
      session_log = []\<rparr>"

definition normalize_url :: "env \<Rightarrow> string \<Rightarrow> exn + string" where
  \<comment> \<open>\<open>urldefrag(l)[0].rstrip('/')\<close>, the normalization of a discovered link\<close>
  "normalize_url E l =
     (case urldefrag E l of Inl e \<Rightarrow> Inl e | Inr d \<Rightarrow> Inr (rstrip {CHR ''/''} d))"

fun enqueue_links :: "env \<Rightarrow> string list \<Rightarrow> crawler \<Rightarrow> crawler \<times> exn option" where
  \<comment> \<open>the loop over \<open>links\<close>: the crawler as it is when the loop ends, and the exception
      that ended it, if any\<close>
  "enqueue_links E [] s = (s, None)"
| "enqueue_links E (l # ls) s =
     (case normalize_url E l of
        Inl e \<Rightarrow> (s, Some e)
      | Inr l' \<Rightarrow>
          enqueue_links E ls
            (if l' \<noteq> [] \<and> l' |\<notin>| visited s \<and> l' \<notin> set (queue s)
             then s\<lparr>queue := queue s @ [l']\<rparr> else s))"

definition try_block :: "env \<Rightarrow> string \<Rightarrow> crawler \<Rightarrow> crawler \<times> exn option" where
  \<comment> \<open>the \<open>try\<close> suite of one iteration: the crawler as the suite leaves it, and the
      exception it raised, if any\<close>
  "try_block E url s =
     (let s1 = s\<lparr>session_log := session_log s @ [url]\<rparr>
      in case session_get E (session_log s) url of
           Raises e \<Rightarrow> (s1, Some e)
         | Response status_code body \<Rightarrow>
            (case raise_for_status status_code of
               Inl e \<Rightarrow> (s1, Some e)
             | Inr u \<Rightarrow>
                (let s2 = s1\<lparr>pages := (pages s1)(url \<mapsto> body)\<rparr>
                 in case extract_forms E body url of
                      Inl e \<Rightarrow> (s2, Some e)
                    | Inr fs \<Rightarrow>
                       (let s3 = (if fs \<noteq> [] then s2\<lparr>forms := (forms s2)(url \<mapsto> fs)\<rparr> else s2)
                        in case extract_links E body url of
                             Inl e \<Rightarrow> (s3, Some e)
                           | Inr links \<Rightarrow> enqueue_links E links s3))))"

definition loop_body :: "env \<Rightarrow> crawler \<Rightarrow> (exn \<times> crawler) + crawler" where
  \<comment> \<open>one iteration of the \<open>while\<close> loop. Both handlers only print, so the exception of
      the \<open>try\<close> suite is dropped; \<open>finally\<close> marks the URL visited and sleeps, and an
      exception of the sleep leaves the loop, with the crawler as it is then.\<close>
  "loop_body E s =
     (case queue s of
        [] \<Rightarrow> Inl (IndexError, s)
      | q # qs \<Rightarrow>
         (let url = rstrip {CHR ''/''} q; s0 = s\<lparr>queue := qs\<rparr>
          in if url |\<in>| visited s0 \<or> \<not> is_same_domain E (base s0) url then Inr s0
             else
               (let s1 = fst (try_block E url s0);
                    s2 = s1\<lparr>visited := finsert url (visited s1)\<rparr>
                in case time_sleep E (delay s2) of
                     Inl e \<Rightarrow> Inl (e, s2)
                   | Inr u \<Rightarrow> Inr s2)))"

definition loop_cond :: "crawler \<Rightarrow> bool" where
  "loop_cond s = (queue s \<noteq> [] \<and> int (fcard (visited s)) < max_pages s)"

function crawl_loop :: "env \<Rightarrow> crawler \<Rightarrow> (exn \<times> crawler) + crawler" where
  "crawl_loop E s =
     (if loop_cond s
      then (case loop_body E s of Inl x \<Rightarrow> Inl x | Inr s' \<Rightarrow> crawl_loop E s')
      else Inr s)"
  by pat_completeness auto

record crawl_result =
  res_pages :: "string \<Rightarrow> string option"
  res_forms :: "string \<Rightarrow> form_info list option"

definition crawl :: "env \<Rightarrow> crawler \<Rightarrow> exn + crawl_result" where
  "crawl E s =
     (case crawl_loop E s of
        Inl x \<Rightarrow> Inl (fst x)
      | Inr s' \<Rightarrow> Inr \<lparr>res_pages = pages s', res_forms = forms s'\<rparr>)"

subsection \<open>States of a run\<close>

text \<open>
  \<open>reachable E s0 s\<close>: the loop, started on \<open>s0\<close>, stands at its head with the crawler
  \<open>s\<close> after some number of iterations.
\<close>

inductive reachable :: "env \<Rightarrow> crawler \<Rightarrow> crawler \<Rightarrow> bool" for E :: env and s0 :: crawler where
  start: "reachable E s0 s0"
| iterate: "reachable E s0 s \<Longrightarrow> loop_cond s \<Longrightarrow> loop_body E s = Inr s' \<Longrightarrow> reachable E s0 s'"

definition transport_failure :: "response \<Rightarrow> bool" where
  \<comment> \<open>the request raised a \<open>RequestException\<close>, or the status makes
      \<open>raise_for_status\<close> raise one\<close>
  "transport_failure r =
     (case r of
        Raises e \<Rightarrow> e = RequestException
      | Response status_code body \<Rightarrow> 400 \<le> status_code \<and> status_code < 600)"

definition failed_fetches :: "crawler \<Rightarrow> nat" where
  \<comment> \<open>the requests that left no page behind\<close>
  "failed_fetches s = length (filter (\<lambda>u. pages s u = None) (session_log s))"

text \<open>
  What the fields of a crawler have in common at the head of the loop, whenever the run
  started from a fresh \<open>Crawler\<close>.
\<close>

definition consistent :: "env \<Rightarrow> crawler \<Rightarrow> bool" where
  "consistent E s =
     (set (session_log s) = fset (visited s) \<and> distinct (session_log s) \<and>
      dom (pages s) \<subseteq> fset (visited s) \<and> dom (forms s) \<subseteq> dom (pages s) \<and>
      (\<forall>u fs. forms s u = Some fs \<longrightarrow> fs \<noteq> []) \<and>
      (\<forall>u. u |\<in>| visited s \<longrightarrow> is_same_domain E (base s) u))"

subsection \<open>A sample run\<close>

text \<open>
  The seed \<open>http://h/\<close> answers with a page that links to \<open>/a\<close> and to
  \<open>http://other.com/c\<close> and holds one form; every other request fails.
\<close>

definition demo_soup :: node where
  "demo_soup = Tag ''[document]'' Map.empty
     [Tag ''a'' [''href'' \<mapsto> ''/a''] [NavigableString ''A''],
      Tag ''a'' [''href'' \<mapsto> ''http://other.com/c''] [],
      Tag ''form'' [''method'' \<mapsto> ''POST'', ''action'' \<mapsto> ''/submit'']
        [Tag ''input'' [''name'' \<mapsto> ''q'', ''type'' \<mapsto> ''text''] []]]"

definition demo_env :: env where
  "demo_env = \<lparr>session_get = (\<lambda>log url. if url = ''http://h'' then Response 200 ''<html>''
                                           else Raises RequestException),
               BeautifulSoup = (\<lambda>html. Inr demo_soup),
               set_order = (\<lambda>xs. xs),
               check_bracketed_host = (\<lambda>h. True),
               time_sleep = cpython_sleep\<rparr>"

definition demo_forms_found :: "form_info list" where
  "demo_forms_found = [\<lparr>form_method = ''post'', form_action = ''http://h/submit'',
        form_inputs = [\<lparr>input_name = Some ''q'', input_type = Some ''text'',
                         input_value = None\<rparr>]\<rparr>]"

definition demo_s0 :: crawler where
  "demo_s0 = \<lparr>base = ''http://h'', max_pages = 10, delay = Float 0, visited = {||},
      queue = [''http://h''], pages = Map.empty, forms = Map.empty, session_log = []\<rparr>"

definition demo_s1 :: crawler where
  "demo_s1 = \<lparr>base = ''http://h'', max_pages = 10, delay = Float 0, visited = {|''http://h''|},
      queue = [''http://h/a'', ''http://other.com/c''], pages = [''http://h'' \<mapsto> ''<html>''],
      forms = [''http://h'' \<mapsto> demo_forms_found], session_log = [''http://h'']\<rparr>"

definition demo_s2 :: crawler where
  "demo_s2 = \<lparr>base = ''http://h'', max_pages = 10, delay = Float 0,
      visited = {|''http://h/a'', ''http://h''|},
      queue = [''http://other.com/c''], pages = [''http://h'' \<mapsto> ''<html>''],
      forms = [''http://h'' \<mapsto> demo_forms_found],
      session_log = [''http://h'', ''http://h/a'']\<rparr>"

definition demo_s3 :: crawler where
  "demo_s3 = \<lparr>base = ''http://h'', max_pages = 10, delay = Float 0,
      visited = {|''http://h/a'', ''http://h''|},
      queue = [], pages = [''http://h'' \<mapsto> ''<html>''],
      forms = [''http://h'' \<mapsto> demo_forms_found],
      session_log = [''http://h'', ''http://h/a'']\<rparr>"

text \<open>
  Further environments and crawlers used as examples: every request answered with an
  empty page; a seed that carries a fragment.
\<close>

definition plain_env :: env where
  "plain_env = \<lparr>session_get = (\<lambda>log url. Response 200 ''<html>''),
                BeautifulSoup = (\<lambda>html. Inr (Tag ''[document]'' Map.empty [])),
                set_order = (\<lambda>xs. xs),
                check_bracketed_host = (\<lambda>h. True),
               time_sleep = cpython_sleep\<rparr>"

definition frag_s0 :: crawler where
  "frag_s0 = \<lparr>base = ''http://h/#top'', max_pages = 5, delay = Float 0, visited = {||},
      queue = [''http://h/#top''], pages = Map.empty, forms = Map.empty, session_log = []\<rparr>"

definition frag_s1 :: crawler where
  "frag_s1 = \<lparr>base = ''http://h/#top'', max_pages = 5, delay = Float 0, visited = {|''http://h/#top''|},
      queue = [], pages = [''http://h/#top'' \<mapsto> ''<html>''], forms = Map.empty,
      session_log = [''http://h/#top'']\<rparr>"

subsection \<open>Hosts and well-formed URLs\<close>









subsection \<open>Form descriptors, as the specification words them\<close>

text \<open>
  One descriptor per form element: the method, \<open>get\<close> when missing, in lower case; the
  action resolved against the page URL; one input descriptor per \<open>input\<close>,
  \<open>textarea\<close> or \<open>select\<close> descendant, a missing attribute being \<open>None\<close>.
  \<open>describes E page_url f d\<close>: the action of the form element \<open>f\<close> resolves and \<open>d\<close>
  is its descriptor. The example is the form of the specification, with the tree that the
  parser returns for it.
\<close>

definition input_descriptor :: "node \<Rightarrow> input_info" where
  "input_descriptor t =
     \<lparr>input_name = get_attr t ''name'', input_type = get_attr t ''type'',
      input_value = get_attr t ''value''\<rparr>"

definition resolved_action :: "env \<Rightarrow> string \<Rightarrow> node \<Rightarrow> exn + string" where
  "resolved_action E page_url f =
     urljoin E page_url (case get_attr f ''action'' of None \<Rightarrow> [] | Some v \<Rightarrow> v)"

definition form_descriptor :: "node \<Rightarrow> string \<Rightarrow> form_info" where
  "form_descriptor f a =
     \<lparr>form_method = lower (case get_attr f ''method'' of None \<Rightarrow> ''get'' | Some v \<Rightarrow> v),
      form_action = a,
      form_inputs = map input_descriptor (find_all [''input'', ''textarea'', ''select''] f)\<rparr>"

definition describes :: "env \<Rightarrow> string \<Rightarrow> node \<Rightarrow> form_info \<Rightarrow> bool" where
  "describes E page_url f d =
     (case resolved_action E page_url f of Inl e \<Rightarrow> False | Inr a \<Rightarrow> d = form_descriptor f a)"

definition form_example_html :: string where
  \<open>form_example_html =
     ''<form method="POST" action="/submit"><input name="q" type="text"></form>''\<close>

definition form_example_soup :: node where
  "form_example_soup = Tag ''[document]'' Map.empty
     [Tag ''form'' [''method'' \<mapsto> ''POST'', ''action'' \<mapsto> ''/submit'']
        [Tag ''input'' [''name'' \<mapsto> ''q'', ''type'' \<mapsto> ''text''] []]]"

definition form_example_env :: env where
  "form_example_env = \<lparr>session_get = (\<lambda>log url. Raises RequestException),
       BeautifulSoup = (\<lambda>html. if html = form_example_html then Inr form_example_soup
                                 else Inl OtherException),
       set_order = (\<lambda>xs. xs),
       check_bracketed_host = (\<lambda>h. True),
       time_sleep = cpython_sleep\<rparr>"

section \<open>The loop terminates\<close>

lemma enqueue_links_effect:
  "enqueue_links E ls s = (s', e) \<Longrightarrow>
     visited s' = visited s \<and> max_pages s' = max_pages s \<and> delay s' = delay s \<and> base s' = base s
     \<and> pages s' = pages s \<and> forms s' = forms s \<and> session_log s' = session_log s
     \<and> (\<exists>new. queue s' = queue s @ new \<and> (\<forall>x\<in>set new. \<exists>l. normalize_url E l = Inr x))"
proof (induction ls arbitrary: s)
  case Nil
  then show ?case by simp
next
  case (Cons l ls)
  show ?case
  proof (cases "normalize_url E l")
    case (Inl a)
    with Cons.prems show ?thesis by simp
  next
    case (Inr l')
    let ?s1 = "if l' \<noteq> [] \<and> l' |\<notin>| visited s \<and> l' \<notin> set (queue s)
             then s\<lparr>queue := queue s @ [l']\<rparr> else s"
    from Cons.prems Inr have "enqueue_links E ls ?s1 = (s', e)" by simp
    from Cons.IH[OF this] obtain new where
      f: "visited s' = visited ?s1 \<and> max_pages s' = max_pages ?s1 \<and> delay s' = delay ?s1 \<and>
          base s' = base ?s1 \<and> pages s' = pages ?s1 \<and> forms s' = forms ?s1 \<and>
          session_log s' = session_log ?s1" and
      n: "queue s' = queue ?s1 @ new" "\<forall>x\<in>set new. \<exists>l. normalize_url E l = Inr x" by blast
    have fr: "visited s' = visited s \<and> max_pages s' = max_pages s \<and> delay s' = delay s \<and>
          base s' = base s \<and> pages s' = pages s \<and> forms s' = forms s \<and>
          session_log s' = session_log s"
      using f by (simp split: if_splits)
    show ?thesis
    proof (cases "l' \<noteq> [] \<and> l' |\<notin>| visited s \<and> l' \<notin> set (queue s)")
      case True
      with n Inr have "queue s' = queue s @ (l' # new)"
        "\<forall>x\<in>set (l' # new). \<exists>l. normalize_url E l = Inr x"
        by auto
      with fr show ?thesis by blast
    next
      case False
      with n fr show ?thesis by auto
    qed
  qed
qed

lemma try_block_effect:
  assumes "try_block E url s = (s', e)"
  shows "visited s' = visited s \<and> max_pages s' = max_pages s \<and> delay s' = delay s \<and>
    base s' = base s \<and> session_log s' = session_log s @ [url] \<and>
    (\<exists>new. queue s' = queue s @ new \<and> (\<forall>x\<in>set new. \<exists>l. normalize_url E l = Inr x)) \<and>
    (\<forall>u. u \<noteq> url \<longrightarrow> pages s' u = pages s u \<and> forms s' u = forms s u) \<and>
    (pages s' url = None \<longrightarrow> pages s url = None) \<and>
    (forms s' url = forms s url \<or>
       (\<exists>fs. fs \<noteq> [] \<and> forms s' url = Some fs \<and> pages s' url \<noteq> None))"
  using assms
  by (auto simp: try_block_def Let_def split: response.splits sum.splits if_splits
      dest!: enqueue_links_effect)

lemma try_block_failure:
  "transport_failure (session_get E (session_log s) url) \<Longrightarrow>
   try_block E url s = (s\<lparr>session_log := session_log s @ [url]\<rparr>, Some RequestException)"
  by (auto simp: try_block_def transport_failure_def raise_for_status_def split: response.splits)

lemma loop_body_skip:
  "queue s = q # qs \<Longrightarrow>
   rstrip {CHR ''/''} q |\<in>| visited s \<or> \<not> is_same_domain E (base s) (rstrip {CHR ''/''} q) \<Longrightarrow>
   loop_body E s = Inr (s\<lparr>queue := qs\<rparr>)"
  by (auto simp: loop_body_def)

lemma loop_body_process:
  "queue s = q # qs \<Longrightarrow> url = rstrip {CHR ''/''} q \<Longrightarrow>
   url |\<notin>| visited s \<Longrightarrow> is_same_domain E (base s) url \<Longrightarrow>
   loop_body E s =
     (let s2 = (fst (try_block E url (s\<lparr>queue := qs\<rparr>)))\<lparr>visited := finsert url (visited s)\<rparr>
      in case time_sleep E (delay s) of Inl e \<Rightarrow> Inl (e, s2) | Inr u \<Rightarrow> Inr s2)"
  using try_block_effect[OF surjective_pairing, of E url "s\<lparr>queue := qs\<rparr>"]
  by (auto simp: loop_body_def Let_def split: sum.splits)

lemma loop_body_cases:
  assumes "loop_body E s = Inr s'"
  obtains (skip) q qs where "queue s = q # qs" "s' = s\<lparr>queue := qs\<rparr>"
      "rstrip {CHR ''/''} q |\<in>| visited s \<or> \<not> is_same_domain E (base s) (rstrip {CHR ''/''} q)"
  | (process) q qs s1 where "queue s = q # qs" "rstrip {CHR ''/''} q |\<notin>| visited s"
      "is_same_domain E (base s) (rstrip {CHR ''/''} q)" "time_sleep E (delay s) = Inr ()"
      "s1 = fst (try_block E (rstrip {CHR ''/''} q) (s\<lparr>queue := qs\<rparr>))"
      "s' = s1\<lparr>visited := finsert (rstrip {CHR ''/''} q) (visited s)\<rparr>"
proof (cases "queue s")
  case Nil
  with assms show ?thesis by (simp add: loop_body_def)
next
  case (Cons q qs)
  show ?thesis
  proof (cases "rstrip {CHR ''/''} q |\<in>| visited s \<or>
                \<not> is_same_domain E (base s) (rstrip {CHR ''/''} q)")
    case True
    with Cons assms loop_body_skip[OF Cons True] show ?thesis by (auto intro: skip)
  next
    case False
    with Cons assms loop_body_process[OF Cons refl, of E] show ?thesis
      by (auto simp: Let_def intro!: process[of q qs] split: sum.splits)
  qed
qed

lemma loop_body_measure:
  assumes "loop_body E s = Inr s'"
  shows "max_pages s' = max_pages s \<and>
         ((visited s' = visited s \<and> length (queue s') < length (queue s)) \<or>
          fcard (visited s') = Suc (fcard (visited s)))"
  using assms
proof (cases rule: loop_body_cases)
  case (skip q qs)
  then show ?thesis by simp
next
  case (process q qs s1)
  from try_block_effect[OF surjective_pairing, of E "rstrip {CHR ''/''} q" "s\<lparr>queue := qs\<rparr>"]
    process
  show ?thesis by (simp add: fcard_finsert_disjoint)
qed

text \<open>
  Each iteration either visits a new URL, which uses up one unit of the page budget, or
  only shortens the queue: the pair (budget left, queue length) falls lexicographically.
\<close>

termination crawl_loop
proof (relation "inv_image (less_than <*lex*> less_than)
         (\<lambda>(E, s). (nat (max_pages s - int (fcard (visited s))), length (queue s)))")
  show "wf (inv_image (less_than <*lex*> less_than)
         (\<lambda>(E, s). (nat (max_pages s - int (fcard (visited s))), length (queue s))))"
    by (intro wf_inv_image wf_lex_prod wf_less_than)
next
  fix E s s'
  assume c: "loop_cond s" and b: "loop_body E s = Inr s'"
  from loop_body_measure[OF b] c
  show "((E, s'), (E, s)) \<in> inv_image (less_than <*lex*> less_than)
         (\<lambda>(E, s). (nat (max_pages s - int (fcard (visited s))), length (queue s)))"
    by (auto simp: loop_cond_def)
qed

section \<open>Properties of the loop\<close>

declare crawl_loop.simps [simp del]

lemma crawl_loop_reachable:
  "crawl_loop E s = Inr s' \<Longrightarrow> reachable E s s' \<and> \<not> loop_cond s'"
proof (induction E s rule: crawl_loop.induct)
  case (1 E s)
  show ?case
  proof (cases "loop_cond s")
    case False
    with "1.prems" show ?thesis by (simp add: crawl_loop.simps[of E s] reachable.start)
  next
    case True
    with "1.prems" obtain s1 where b: "loop_body E s = Inr s1" and r: "crawl_loop E s1 = Inr s'"
      by (auto simp: crawl_loop.simps[of E s] split: sum.splits)
    from "1.IH"[OF True b r] have r1: "reachable E s1 s'" and n: "\<not> loop_cond s'" by auto
    from r1 have "reachable E s s'"
    proof (induction rule: reachable.induct)
      case start
      show ?case using reachable.iterate[OF reachable.start True b] .
    next
      case (iterate t t')
      then show ?case by (blast intro: reachable.iterate)
    qed
    with n show ?thesis by simp
  qed
qed

lemma loop_body_elim:
  assumes "loop_body E s = Inr s'"
  obtains (skip) q qs where "queue s = q # qs" "s' = s\<lparr>queue := qs\<rparr>"
      "rstrip {CHR ''/''} q |\<in>| visited s \<or> \<not> is_same_domain E (base s) (rstrip {CHR ''/''} q)"
  | (process) q qs new where "queue s = q # qs" "rstrip {CHR ''/''} q |\<notin>| visited s"
      "is_same_domain E (base s) (rstrip {CHR ''/''} q)" "time_sleep E (delay s) = Inr ()"
      "visited s' = finsert (rstrip {CHR ''/''} q) (visited s)"
      "max_pages s' = max_pages s" "delay s' = delay s" "base s' = base s"
      "session_log s' = session_log s @ [rstrip {CHR ''/''} q]"
      "queue s' = qs @ new" "\<forall>x\<in>set new. \<exists>l. normalize_url E l = Inr x"
      "\<forall>u. u \<noteq> rstrip {CHR ''/''} q \<longrightarrow> pages s' u = pages s u \<and> forms s' u = forms s u"
      "pages s' (rstrip {CHR ''/''} q) = None \<longrightarrow> pages s (rstrip {CHR ''/''} q) = None"
      "forms s' (rstrip {CHR ''/''} q) = forms s (rstrip {CHR ''/''} q) \<or>
         (\<exists>fs. fs \<noteq> [] \<and> forms s' (rstrip {CHR ''/''} q) = Some fs \<and>
               pages s' (rstrip {CHR ''/''} q) \<noteq> None)"
  using assms
proof (cases rule: loop_body_cases)
  case (skip q qs)
  then show ?thesis by (rule that(1))
next
  case (process q qs s1)
  from try_block_effect[OF surjective_pairing, of E "rstrip {CHR ''/''} q" "s\<lparr>queue := qs\<rparr>"]
    process(5,6)
  obtain new where "visited s' = finsert (rstrip {CHR ''/''} q) (visited s)"
      "max_pages s' = max_pages s" "delay s' = delay s" "base s' = base s"
      "session_log s' = session_log s @ [rstrip {CHR ''/''} q]"
      "queue s' = qs @ new" "\<forall>x\<in>set new. \<exists>l. normalize_url E l = Inr x"
      "\<forall>u. u \<noteq> rstrip {CHR ''/''} q \<longrightarrow> pages s' u = pages s u \<and> forms s' u = forms s u"
      "pages s' (rstrip {CHR ''/''} q) = None \<longrightarrow> pages s (rstrip {CHR ''/''} q) = None"
      "forms s' (rstrip {CHR ''/''} q) = forms s (rstrip {CHR ''/''} q) \<or>
         (\<exists>fs. fs \<noteq> [] \<and> forms s' (rstrip {CHR ''/''} q) = Some fs \<and>
               pages s' (rstrip {CHR ''/''} q) \<noteq> None)"
    by auto
  with process(1-4) show ?thesis by (rule that(2))
qed

lemma loop_body_delay:
  assumes "loop_body E s = Inr s'"
  shows "delay s' = delay s \<and> base s' = base s \<and> max_pages s' = max_pages s"
  using assms by (cases rule: loop_body_elim) auto

lemma loop_body_raises:
  "loop_cond s \<Longrightarrow> loop_body E s = Inl (e, s') \<Longrightarrow> time_sleep E (delay s) = Inl e"
  by (cases "queue s")
     (auto simp: loop_body_def loop_cond_def Let_def try_block_effect[OF surjective_pairing]
           split: if_splits sum.splits)

lemma loop_body_returns:
  "loop_cond s \<Longrightarrow> time_sleep E (delay s) = Inr () \<Longrightarrow> \<exists>s'. loop_body E s = Inr s'"
  using loop_body_raises[of s E] by (cases "loop_body E s") (auto simp: Inl_Inr_False)

lemma crawl_loop_raises:
  "crawl_loop E s = Inl (e, s') \<Longrightarrow> time_sleep E (delay s) = Inl e"
proof (induction E s rule: crawl_loop.induct)
  case (1 E s)
  show ?case
  proof (cases "loop_cond s")
    case False
    with "1.prems" show ?thesis by (simp add: crawl_loop.simps[of E s])
  next
    case True
    show ?thesis
    proof (cases "loop_body E s")
      case (Inl a)
      with True "1.prems" loop_body_raises[OF True, of E e s'] show ?thesis
        by (simp add: crawl_loop.simps[of E s])
    next
      case (Inr s1)
      with True "1.prems" have "crawl_loop E s1 = Inl (e, s')"
        by (simp add: crawl_loop.simps[of E s])
      from "1.IH"[OF True Inr this] loop_body_delay[OF Inr] show ?thesis by simp
    qed
  qed
qed

lemma crawl_loop_returns:
  "time_sleep E (delay s) = Inr () \<Longrightarrow> \<exists>s'. crawl_loop E s = Inr s'"
  using crawl_loop_raises[of E s] by (cases "crawl_loop E s") auto

lemma consistent_init: "consistent E (Crawler_init b m d)"
  by (simp add: consistent_def Crawler_init_def)

lemma consistent_step:
  assumes "consistent E s" "loop_body E s = Inr s'"
  shows "consistent E s'"
  using assms(2)
proof (cases rule: loop_body_elim)
  case (skip q qs)
  with assms(1) show ?thesis by (simp add: consistent_def)
next
  case (process q qs new)
  let ?u = "rstrip {CHR ''/''} q"
  from assms(1) have c: "set (session_log s) = fset (visited s)" "distinct (session_log s)"
    "dom (pages s) \<subseteq> fset (visited s)" "dom (forms s) \<subseteq> dom (pages s)"
    "\<forall>u fs. forms s u = Some fs \<longrightarrow> fs \<noteq> []"
    "\<forall>u. u |\<in>| visited s \<longrightarrow> is_same_domain E (base s) u"
    by (auto simp: consistent_def)
  have 1: "set (session_log s') = fset (visited s')" using process c by auto
  have 2: "distinct (session_log s')" using process c by auto
  have 3: "dom (pages s') \<subseteq> fset (visited s')"
  proof
    fix u assume u: "u \<in> dom (pages s')"
    show "u \<in> fset (visited s')"
    proof (cases "u = ?u")
      case True then show ?thesis using process by simp
    next
      case False
      with process(12) u have "u \<in> dom (pages s)" by (auto simp: dom_def)
      with c(3) process show ?thesis by auto
    qed
  qed
  have 4: "dom (forms s') \<subseteq> dom (pages s')"
  proof
    fix u assume u: "u \<in> dom (forms s')"
    show "u \<in> dom (pages s')"
    proof (cases "u = ?u")
      case True
      from process(14) show ?thesis
      proof
        assume "forms s' ?u = forms s ?u"
        with u True have "?u \<in> dom (forms s)" by (auto simp: dom_def)
        with c(3,4) have "?u |\<in>| visited s" by blast
        with process(2) show ?thesis by simp
      next
        assume "\<exists>fs. fs \<noteq> [] \<and> forms s' ?u = Some fs \<and> pages s' ?u \<noteq> None"
        with True show ?thesis by (auto simp: dom_def)
      qed
    next
      case False
      with process(12) u have "u \<in> dom (forms s)" "pages s' u = pages s u" by (auto simp: dom_def)
      with c(4) show ?thesis by (auto simp: dom_def)
    qed
  qed
  have 5: "\<forall>u fs. forms s' u = Some fs \<longrightarrow> fs \<noteq> []"
  proof (intro allI impI)
    fix u fs assume f: "forms s' u = Some fs"
    show "fs \<noteq> []"
    proof (cases "u = ?u")
      case True
      with process(14) f c(5) show ?thesis by (metis option.inject)
    next
      case False
      with process(12) f c(5) show ?thesis by metis
    qed
  qed
  have 6: "\<forall>u. u |\<in>| visited s' \<longrightarrow> is_same_domain E (base s') u"
    using process c(6) by auto
  from 1 2 3 4 5 6 show ?thesis by (simp add: consistent_def)
qed

lemma reachable_consistent:
  "reachable E s0 s \<Longrightarrow> consistent E s0 \<Longrightarrow> consistent E s"
  by (induction rule: reachable.induct) (auto intro: consistent_step)

lemma reachable_config:
  "reachable E s0 s \<Longrightarrow> base s = base s0 \<and> max_pages s = max_pages s0 \<and> delay s = delay s0"
  by (induction rule: reachable.induct) (auto dest: loop_body_delay)

lemma loop_body_visited_bound:
  assumes "loop_cond s" "loop_body E s = Inr s'"
  shows "int (fcard (visited s')) \<le> max_pages s'"
  using assms(2)
proof (cases rule: loop_body_elim)
  case (skip q qs)
  with assms(1) show ?thesis by (simp add: loop_cond_def)
next
  case (process q qs new)
  with assms(1) show ?thesis by (simp add: loop_cond_def fcard_finsert_disjoint)
qed

lemma reachable_visited_bound:
  "reachable E s0 s \<Longrightarrow> int (fcard (visited s0)) \<le> max_pages s0 \<Longrightarrow>
   int (fcard (visited s)) \<le> max_pages s"
proof (induction rule: reachable.induct)
  case start
  then show ?case by simp
next
  case (iterate s s')
  then show ?case using loop_body_visited_bound by blast
qed

lemma consistent_count:
  assumes "consistent E s"
  shows "card (dom (pages s)) + failed_fetches s = fcard (visited s)"
proof -
  from assms have c: "set (session_log s) = fset (visited s)" "distinct (session_log s)"
    "dom (pages s) \<subseteq> fset (visited s)" by (auto simp: consistent_def)
  have "set (filter (\<lambda>u. pages s u \<noteq> None) (session_log s)) = dom (pages s)"
    using c(1,3) by (auto simp: dom_def)
  moreover have "distinct (filter (\<lambda>u. pages s u \<noteq> None) (session_log s))"
    using c(2) by simp
  ultimately have "card (dom (pages s)) = length (filter (\<lambda>u. pages s u \<noteq> None) (session_log s))"
    using distinct_card by metis
  moreover have "length (filter (\<lambda>u. pages s u \<noteq> None) (session_log s)) +
        length (filter (\<lambda>u. pages s u = None) (session_log s)) = length (session_log s)"
    using sum_length_filter_compl[of "\<lambda>u. pages s u \<noteq> None" "session_log s"] by simp
  moreover have "length (session_log s) = fcard (visited s)"
    using c(1,2) distinct_card[of "session_log s"] by (simp add: fcard.rep_eq)
  ultimately show ?thesis by (simp add: failed_fetches_def)
qed

section \<open>The sample run, step by step\<close>

lemmas url_eval = urlparse_def urlsplit_def Let_def remove_unsafe_def lstrip_def strip_def rstrip_def
  c0_control_or_space_def find_from_def is_ascii_alpha_def scheme_char_def lower_def lower_char_def
  splitnetloc_def split1_def uses_params_def uses_netloc_def uses_relative_def splitparams_def rfind_def
  urlunparse_def urlunsplit_def bracketed_host_def

lemma parse_h: "urlparse E ''http://h'' sc = Inr \<lparr>scheme = ''http'', netloc = ''h'', path = [], params = [], query = [], fragment = []\<rparr>"
  by (simp add: url_eval)
lemma parse_ha: "urlparse E ''http://h/a'' sc = Inr \<lparr>scheme = ''http'', netloc = ''h'', path = ''/a'', params = [], query = [], fragment = []\<rparr>"
  by (simp add: url_eval)
lemma parse_other: "urlparse E ''http://other.com/c'' sc = Inr \<lparr>scheme = ''http'', netloc = ''other.com'', path = ''/c'', params = [], query = [], fragment = []\<rparr>"
  by (simp add: url_eval)
lemma parse_a: "urlparse E ''/a'' ''http'' = Inr \<lparr>scheme = ''http'', netloc = [], path = ''/a'', params = [], query = [], fragment = []\<rparr>"
  by (simp add: url_eval)
lemma parse_submit: "urlparse E ''/submit'' ''http'' = Inr \<lparr>scheme = ''http'', netloc = [], path = ''/submit'', params = [], query = [], fragment = []\<rparr>"
  by (simp add: url_eval)

lemma join_a: "urljoin E ''http://h'' ''/a'' = Inr ''http://h/a''"
  by (simp add: urljoin_def parse_h parse_a uses_relative_def uses_netloc_def urlunparse_def urlunsplit_def Let_def)
lemma join_other: "urljoin E ''http://h'' ''http://other.com/c'' = Inr ''http://other.com/c''"
  by (simp add: urljoin_def parse_h parse_other uses_relative_def uses_netloc_def urlunparse_def urlunsplit_def Let_def)
lemma join_submit: "urljoin E ''http://h'' ''/submit'' = Inr ''http://h/submit''"
  by (simp add: urljoin_def parse_h parse_submit uses_relative_def uses_netloc_def urlunparse_def urlunsplit_def Let_def)

lemma same_h: "is_same_domain E ''http://h'' ''http://h''" "is_same_domain E ''http://h'' ''http://h/a''"
  "\<not> is_same_domain E ''http://h'' ''http://other.com/c''"
  by (simp_all add: is_same_domain_def parse_h parse_ha parse_other)

lemma demo_links: "extract_links demo_env body ''http://h'' = Inr [''http://h/a'', ''http://other.com/c'']"
  by (simp add: extract_links_def demo_env_def demo_soup_def find_all_href_def find_all_def get_attr_def
       join_a join_other)

lemma demo_forms: "extract_forms demo_env body ''http://h'' =
   Inr [\<lparr>form_method = ''post'', form_action = ''http://h/submit'',
        form_inputs = [\<lparr>input_name = Some ''q'', input_type = Some ''text'', input_value = None\<rparr>]\<rparr>]"
  by (simp add: extract_forms_def demo_env_def demo_soup_def find_all_def get_attr_def
       join_submit lower_def lower_char_def char_of_eq_iff)

lemma norm_plain: "CHR ''#'' \<notin> set l \<Longrightarrow> normalize_url E l = Inr (rstrip {CHR ''/''} l)"
  by (simp add: normalize_url_def urldefrag_def)

lemma demo_sleep: "time_sleep demo_env (Float 0) = Inr ()" "time_sleep plain_env (Float 0) = Inr ()"
  "time_sleep demo_env (Float (- 1)) = Inl ValueError"
  "time_sleep demo_env (Float (10 ^ 10)) = Inl OverflowError"
  "time_sleep demo_env NaN = Inl ValueError"
  by (simp_all add: demo_env_def plain_env_def cpython_sleep_def)

lemma demo_init: "Crawler_init ''http://h/'' 10 (Float 0) = demo_s0"
  by (simp add: Crawler_init_def demo_s0_def rstrip_def)

lemma demo_get: "session_get demo_env l ''http://h'' = Response 200 ''<html>''"
  "session_get demo_env l ''http://h/a'' = Raises RequestException"
  by (simp_all add: demo_env_def)

lemma demo_step1: "loop_body demo_env demo_s0 = Inr demo_s1"
  by (simp add: loop_body_def demo_s0_def demo_s1_def rstrip_def same_h try_block_def demo_get
      demo_links demo_forms demo_forms_found_def norm_plain raise_for_status_def demo_sleep Let_def)

lemma demo_step2: "loop_body demo_env demo_s1 = Inr demo_s2"
  by (simp add: loop_body_def demo_s1_def demo_s2_def rstrip_def same_h try_block_def demo_get
      demo_sleep Let_def)

lemma demo_step3: "loop_body demo_env demo_s2 = Inr demo_s3"
  by (simp add: loop_body_def demo_s2_def demo_s3_def rstrip_def same_h)

lemma demo_cond: "loop_cond demo_s0" "loop_cond demo_s1" "loop_cond demo_s2" "\<not> loop_cond demo_s3"
  by (simp_all add: loop_cond_def demo_s0_def demo_s1_def demo_s2_def demo_s3_def fcard_fempty fcard_finsert_if)

lemma demo_run: "crawl_loop demo_env demo_s0 = Inr demo_s3"
  by (simp add: crawl_loop.simps[of demo_env demo_s0] crawl_loop.simps[of demo_env demo_s1]
      crawl_loop.simps[of demo_env demo_s2] crawl_loop.simps[of demo_env demo_s3]
      demo_cond demo_step1 demo_step2 demo_step3)

section \<open>The page budget\<close>

text \<open>
  C2. With a page budget \<open>m\<close> that is not negative, the visited set never holds more than
  \<open>m\<close> URLs at the head of the loop; the loop goes on exactly while the queue is not
  empty and the bound is not reached, so it ends with an empty queue or with \<open>m\<close> visited
  URLs; and the pages stored plus the requests that failed never exceed \<open>m\<close>.
\<close>

theorem crawl_page_budget:
  assumes "0 \<le> m"
  shows "(\<forall>s. reachable E (Crawler_init b m d) s \<longrightarrow>
            int (fcard (visited s)) \<le> m \<and>
            int (card (dom (pages s))) + int (failed_fetches s) \<le> m \<and>
            (loop_cond s \<longleftrightarrow> queue s \<noteq> [] \<and> int (fcard (visited s)) \<noteq> m)) \<and>
         (\<forall>s'. crawl_loop E (Crawler_init b m d) = Inr s' \<longrightarrow>
            reachable E (Crawler_init b m d) s' \<and>
            (queue s' = [] \<or> int (fcard (visited s')) = m))"
proof (intro conjI allI impI)
  fix s assume r: "reachable E (Crawler_init b m d) s"
  have m: "max_pages s = m" using reachable_config[OF r] by (simp add: Crawler_init_def)
  show v: "int (fcard (visited s)) \<le> m"
    using reachable_visited_bound[OF r] assms m by (simp add: Crawler_init_def fcard_fempty)
  have "consistent E s" using reachable_consistent[OF r consistent_init] .
  from consistent_count[OF this] v
  show "int (card (dom (pages s))) + int (failed_fetches s) \<le> m" by linarith
  show "loop_cond s \<longleftrightarrow> queue s \<noteq> [] \<and> int (fcard (visited s)) \<noteq> m"
    using v m by (auto simp: loop_cond_def)
next
  fix s' assume c: "crawl_loop E (Crawler_init b m d) = Inr s'"
  from crawl_loop_reachable[OF c]
  show r: "reachable E (Crawler_init b m d) s'" by simp
  have m: "max_pages s' = m" using reachable_config[OF r] by (simp add: Crawler_init_def)
  have v: "int (fcard (visited s')) \<le> m"
    using reachable_visited_bound[OF r] assms m by (simp add: Crawler_init_def fcard_fempty)
  from crawl_loop_reachable[OF c] v m
  show "queue s' = [] \<or> int (fcard (visited s')) = m" by (auto simp: loop_cond_def)
qed


theorem crawl_page_budget_witness:
  "(0::int) \<le> 10 \<and>
   crawl_loop demo_env (Crawler_init ''http://h/'' 10 (Float 0)) = Inr demo_s3 \<and>
   reachable demo_env (Crawler_init ''http://h/'' 10 (Float 0)) demo_s3 \<and>
   queue demo_s3 = [] \<and> fcard (visited demo_s3) = 2 \<and>
   card (dom (pages demo_s3)) = 1 \<and> failed_fetches demo_s3 = 1 \<and>
   int (card (dom (pages demo_s3))) + int (failed_fetches demo_s3) \<le> 10"
proof -
  have r: "crawl_loop demo_env (Crawler_init ''http://h/'' 10 (Float 0)) = Inr demo_s3"
    by (simp add: demo_init demo_run)
  have b: "(0::int) \<le> 10" by simp
  from crawl_page_budget[OF b, of demo_env "''http://h/''" "Float 0"] r
  have "reachable demo_env (Crawler_init ''http://h/'' 10 (Float 0)) demo_s3"
    and "int (card (dom (pages demo_s3))) + int (failed_fetches demo_s3) \<le> 10"
    by blast+
  moreover have "queue demo_s3 = []" "fcard (visited demo_s3) = 2"
    "card (dom (pages demo_s3)) = 1" "failed_fetches demo_s3 = 1"
    by (simp_all add: demo_s3_def fcard_finsert_if fcard_fempty failed_fetches_def)
  ultimately show ?thesis using r by simp
qed

section \<open>Forms are recorded only for stored pages\<close>

text \<open>
  C10. At the head of every iteration of a run started by the constructor, and in the
  result that \<open>crawl\<close> returns, every key of the forms map is a key of the pages map, and
  every list stored in the forms map is non-empty.
\<close>

theorem forms_within_pages:
  assumes "reachable E (Crawler_init b m d) s"
  shows "dom (forms s) \<subseteq> dom (pages s) \<and> (\<forall>u fs. forms s u = Some fs \<longrightarrow> fs \<noteq> []) \<and>
         (\<forall>r. crawl E (Crawler_init b m d) = Inr r \<longrightarrow>
            dom (res_forms r) \<subseteq> dom (res_pages r) \<and>
            (\<forall>u fs. res_forms r u = Some fs \<longrightarrow> fs \<noteq> []))"
proof -
  have c: "consistent E s" using reachable_consistent[OF assms consistent_init] .
  have "\<forall>r. crawl E (Crawler_init b m d) = Inr r \<longrightarrow>
            dom (res_forms r) \<subseteq> dom (res_pages r) \<and>
            (\<forall>u fs. res_forms r u = Some fs \<longrightarrow> fs \<noteq> [])"
  proof (intro allI impI)
    fix r assume "crawl E (Crawler_init b m d) = Inr r"
    then obtain s' where l: "crawl_loop E (Crawler_init b m d) = Inr s'"
      and r: "r = \<lparr>res_pages = pages s', res_forms = forms s'\<rparr>"
      by (auto simp: crawl_def split: sum.splits)
    from crawl_loop_reachable[OF l] have "consistent E s'"
      using reachable_consistent consistent_init by blast
    with r show "dom (res_forms r) \<subseteq> dom (res_pages r) \<and>
            (\<forall>u fs. res_forms r u = Some fs \<longrightarrow> fs \<noteq> [])"
      by (simp add: consistent_def)
  qed
  with c show ?thesis by (simp add: consistent_def)
qed

lemma demo_reach1: "reachable demo_env (Crawler_init ''http://h/'' 10 (Float 0)) demo_s1"
  unfolding demo_init
  by (rule reachable.iterate[OF reachable.start demo_cond(1) demo_step1])

lemma demo_reach2: "reachable demo_env (Crawler_init ''http://h/'' 10 (Float 0)) demo_s2"
  by (rule reachable.iterate[OF demo_reach1 demo_cond(2) demo_step2])

lemma demo_crawl: "crawl demo_env (Crawler_init ''http://h/'' 10 (Float 0)) =
   Inr \<lparr>res_pages = [''http://h'' \<mapsto> ''<html>''], res_forms = [''http://h'' \<mapsto> demo_forms_found]\<rparr>"
  by (simp add: crawl_def demo_init demo_run, simp add: demo_s3_def)

theorem forms_within_pages_witness:
  "reachable demo_env (Crawler_init ''http://h/'' 10 (Float 0)) demo_s1 \<and>
   forms demo_s1 ''http://h'' = Some demo_forms_found \<and> demo_forms_found \<noteq> [] \<and>
   pages demo_s1 ''http://h'' = Some ''<html>'' \<and>
   dom (forms demo_s1) \<subseteq> dom (pages demo_s1) \<and>
   dom [''http://h'' \<mapsto> demo_forms_found] \<subseteq> dom [''http://h'' \<mapsto> ''<html>'']"
proof -
  from forms_within_pages[OF demo_reach1] demo_crawl
  have "dom (forms demo_s1) \<subseteq> dom (pages demo_s1)"
    "dom [''http://h'' \<mapsto> demo_forms_found] \<subseteq> dom [''http://h'' \<mapsto> ''<html>'']"
    by auto
  then show ?thesis using demo_reach1 by (simp add: demo_s1_def demo_forms_found_def)
qed

section \<open>The crawl returns\<close>

lemma refused_delay_raises:
  assumes "loop_cond s" "queue s = q # qs" "rstrip {CHR ''/''} q |\<notin>| visited s"
    "is_same_domain E (base s) (rstrip {CHR ''/''} q)" "time_sleep E (delay s) = Inl e"
  shows "\<exists>s'. loop_body E s = Inl (e, s') \<and> crawl_loop E s = Inl (e, s') \<and> crawl E s = Inl e"
  using loop_body_process[OF assms(2) refl assms(3,4)] assms(1,5)
  by (simp add: Let_def crawl_def crawl_loop.simps[of E s])

lemma demo_refused:
  assumes "time_sleep demo_env d = Inl e"
  shows "crawl demo_env (Crawler_init ''http://h/'' 10 d) = Inl e"
proof -
  let ?s = "Crawler_init ''http://h/'' 10 d"
  have "loop_cond ?s" "queue ?s = [''http://h'']" "rstrip {CHR ''/''} ''http://h'' |\<notin>| visited ?s"
    "is_same_domain demo_env (base ?s) (rstrip {CHR ''/''} ''http://h'')"
    "time_sleep demo_env (delay ?s) = Inl e"
    using assms by (simp_all add: Crawler_init_def loop_cond_def rstrip_def same_h fcard_fempty)
  from refused_delay_raises[OF this] show ?thesis by blast
qed

text \<open>
  With the delay -1 the first iteration of the sample run ends in the \<open>ValueError\<close> of
  \<open>time.sleep\<close>, with the delay \<open>10^10\<close> in its \<open>OverflowError\<close>, and \<open>crawl\<close>
  passes the error on instead of returning a result.
\<close>

theorem crawl_refused_delay_counterexample:
  "crawl demo_env (Crawler_init ''http://h/'' 10 (Float (- 1))) = Inl ValueError \<and>
   crawl demo_env (Crawler_init ''http://h/'' 10 (Float (10 ^ 10))) = Inl OverflowError"
  using demo_refused[OF demo_sleep(3)] demo_refused[OF demo_sleep(4)] by simp

text \<open>
  C6, as amended. Whatever the session answers and whatever links the pages hold,
  \<open>crawl\<close> terminates (the loop is a total function: its termination is proved above
  for every environment and crawler), and when \<open>time.sleep\<close> accepts the configured
  delay it returns the result \<open>{pages, forms}\<close>: no iteration raises, because the
  exceptions of the fetch and of the extraction are caught.
\<close>

theorem crawl_returns:
  assumes "time_sleep E d = Inr ()"
  shows "(\<exists>s'. crawl_loop E (Crawler_init b m d) = Inr s' \<and>
              crawl E (Crawler_init b m d) =
                Inr \<lparr>res_pages = pages s', res_forms = forms s'\<rparr>) \<and>
         (\<forall>s. reachable E (Crawler_init b m d) s \<and> loop_cond s \<longrightarrow>
              (\<exists>s'. loop_body E s = Inr s'))"
proof
  have "time_sleep E (delay (Crawler_init b m d)) = Inr ()"
    using assms by (simp add: Crawler_init_def)
  from crawl_loop_returns[OF this] obtain s' where "crawl_loop E (Crawler_init b m d) = Inr s'" ..
  then show "\<exists>s'. crawl_loop E (Crawler_init b m d) = Inr s' \<and>
              crawl E (Crawler_init b m d) =
                Inr \<lparr>res_pages = pages s', res_forms = forms s'\<rparr>"
    by (simp add: crawl_def)
next
  show "\<forall>s. reachable E (Crawler_init b m d) s \<and> loop_cond s \<longrightarrow>
              (\<exists>s'. loop_body E s = Inr s')"
  proof (intro allI impI)
    fix s assume a: "reachable E (Crawler_init b m d) s \<and> loop_cond s"
    then have "delay s = d"
      using reachable_config[of E "Crawler_init b m d" s] by (simp add: Crawler_init_def)
    with a assms loop_body_returns[of s E] show "\<exists>s'. loop_body E s = Inr s'" by simp
  qed
qed

theorem crawl_returns_witness:
  "time_sleep demo_env (Float 0) = Inr () \<and>
   crawl demo_env (Crawler_init ''http://h/'' 10 (Float 0)) =
     Inr \<lparr>res_pages = [''http://h'' \<mapsto> ''<html>''],
          res_forms = [''http://h'' \<mapsto> demo_forms_found]\<rparr> \<and>
   reachable demo_env (Crawler_init ''http://h/'' 10 (Float 0)) demo_s1 \<and> loop_cond demo_s1 \<and>
   loop_body demo_env demo_s1 = Inr demo_s2"
proof -
  from crawl_returns[OF demo_sleep(1), of "''http://h/''" 10] demo_crawl demo_sleep(1)
    demo_reach1 demo_cond(2) demo_step2
  show ?thesis by simp
qed

lemma loop_body_visited_stable:
  assumes "loop_body E s = Inr s'" "u |\<in>| visited s"
  shows "u |\<in>| visited s' \<and> pages s' u = pages s u \<and> forms s' u = forms s u \<and>
         count_list (session_log s') u = count_list (session_log s) u"
  using assms(1)
proof (cases rule: loop_body_elim)
  case (skip q qs)
  with assms(2) show ?thesis by simp
next
  case (process q qs new)
  with assms(2) have "u \<noteq> rstrip {CHR ''/''} q" by auto
  with process assms(2) show ?thesis by simp
qed

lemma reachable_visited_stable:
  "reachable E s0 s \<Longrightarrow> u |\<in>| visited s0 \<Longrightarrow>
     u |\<in>| visited s \<and> pages s u = pages s0 u \<and> forms s u = forms s0 u \<and>
     count_list (session_log s) u = count_list (session_log s0) u"
proof (induction rule: reachable.induct)
  case start
  then show ?case by simp
next
  case (iterate s s')
  with loop_body_visited_stable[OF iterate.hyps(3), of u] show ?case by simp
qed

section \<open>A failed fetch\<close>

text \<open>
  The seed \<open>http://h/a\<close> of the sample environment fails at the transport level; with
  the delay -1 the iteration that fetched it ends in the \<open>ValueError\<close> of
  \<open>time.sleep\<close>, so the loop does not go on with the rest of the queue.
\<close>

theorem failed_fetch_refused_delay_counterexample:
  "loop_cond (Crawler_init ''http://h/a'' 10 (Float (- 1))) \<and>
   queue (Crawler_init ''http://h/a'' 10 (Float (- 1))) = [''http://h/a''] \<and>
   ''http://h/a'' |\<notin>| visited (Crawler_init ''http://h/a'' 10 (Float (- 1))) \<and>
   is_same_domain demo_env (base (Crawler_init ''http://h/a'' 10 (Float (- 1)))) ''http://h/a'' \<and>
   transport_failure (session_get demo_env [] ''http://h/a'') \<and>
   loop_body demo_env (Crawler_init ''http://h/a'' 10 (Float (- 1))) =
     Inl (ValueError,
          \<lparr>base = ''http://h/a'', max_pages = 10, delay = Float (- 1),
           visited = {|''http://h/a''|}, queue = [], pages = Map.empty, forms = Map.empty,
           session_log = [''http://h/a'']\<rparr>) \<and>
   crawl demo_env (Crawler_init ''http://h/a'' 10 (Float (- 1))) = Inl ValueError"
proof -
  let ?s = "Crawler_init ''http://h/a'' 10 (Float (- 1))"
  have i: "?s = \<lparr>base = ''http://h/a'', max_pages = 10, delay = Float (- 1), visited = {||},
      queue = [''http://h/a''], pages = Map.empty, forms = Map.empty, session_log = []\<rparr>"
    by (simp add: Crawler_init_def rstrip_def)
  have same: "is_same_domain demo_env ''http://h/a'' ''http://h/a''"
    by (simp add: is_same_domain_def parse_ha)
  have f: "transport_failure (session_get demo_env [] ''http://h/a'')"
    by (simp add: transport_failure_def demo_get)
  have c: "loop_cond ?s" by (simp add: i loop_cond_def fcard_fempty)
  have q: "queue ?s = [''http://h/a'']" "''http://h/a'' = rstrip {CHR ''/''} ''http://h/a''"
    "''http://h/a'' |\<notin>| visited ?s" "is_same_domain demo_env (base ?s) ''http://h/a''"
    by (simp_all add: i rstrip_def same)
  have t: "try_block demo_env ''http://h/a'' (?s\<lparr>queue := []\<rparr>) =
      (?s\<lparr>queue := [], session_log := [''http://h/a'']\<rparr>, Some RequestException)"
    using try_block_failure[of demo_env "?s\<lparr>queue := []\<rparr>" "''http://h/a''"] f by (simp add: i)
  have b: "loop_body demo_env ?s =
     Inl (ValueError,
          \<lparr>base = ''http://h/a'', max_pages = 10, delay = Float (- 1),
           visited = {|''http://h/a''|}, queue = [], pages = Map.empty, forms = Map.empty,
           session_log = [''http://h/a'']\<rparr>)"
    using loop_body_process[OF q] t by (simp add: i demo_sleep Let_def)
  then have "crawl demo_env ?s = Inl ValueError"
    using c by (simp add: crawl_def crawl_loop.simps[of demo_env ?s])
  with c q f b show ?thesis by simp
qed

text \<open>
  C3, as amended. When the URL taken from the queue is not yet visited, is on the base's
  domain, and its request fails at the transport level (the request raises a
  \<open>RequestException\<close>, or the status is 4xx or 5xx), the iteration leaves the URL in
  the visited set, absent from the pages map and from the forms map, and the rest of the
  queue as the queue; from then on the URL stays visited and absent from both maps and is
  never requested again. The loop goes on with the rest of the queue when \<open>time.sleep\<close>
  accepts the configured delay; when it refuses the delay, its error leaves the loop.
\<close>

theorem failed_fetch_is_visited_once:
  assumes "reachable E (Crawler_init b m d) s"
    and "loop_cond s" and "queue s = q # qs" and "url = rstrip {CHR ''/''} q"
    and "url |\<notin>| visited s" and "is_same_domain E (base s) url"
    and "transport_failure (session_get E (session_log s) url)"
  shows "\<exists>s'. (case time_sleep E d of
                 Inl e \<Rightarrow> loop_body E s = Inl (e, s')
               | Inr u \<Rightarrow> loop_body E s = Inr s' \<and> reachable E (Crawler_init b m d) s') \<and>
           queue s' = qs \<and> session_log s' = session_log s @ [url] \<and>
           url |\<in>| visited s' \<and> pages s' url = None \<and> forms s' url = None \<and>
           (\<forall>s''. reachable E s' s'' \<longrightarrow>
              url |\<in>| visited s'' \<and> pages s'' url = None \<and> forms s'' url = None \<and>
              count_list (session_log s'') url = 1)"
proof -
  let ?s' = "s\<lparr>queue := qs, session_log := session_log s @ [url], visited := finsert url (visited s)\<rparr>"
  have d: "delay s = d" using reachable_config[OF assms(1)] by (simp add: Crawler_init_def)
  have c: "consistent E s" using reachable_consistent[OF assms(1) consistent_init] .
  have tf: "transport_failure (session_get E (session_log (s\<lparr>queue := qs\<rparr>)) url)"
    using assms(7) by simp
  have b: "loop_body E s = (case time_sleep E d of Inl e \<Rightarrow> Inl (e, ?s') | Inr u \<Rightarrow> Inr ?s')"
    using loop_body_process[OF assms(3,4,5,6)] try_block_failure[OF tf] d by (simp add: Let_def)
  have r: "case time_sleep E d of
             Inl e \<Rightarrow> loop_body E s = Inl (e, ?s')
           | Inr u \<Rightarrow> loop_body E s = Inr ?s' \<and> reachable E (Crawler_init b m d) ?s'"
  proof (cases "time_sleep E d")
    case (Inl e)
    with b show ?thesis by simp
  next
    case (Inr u)
    with b have "loop_body E s = Inr ?s'" by simp
    with reachable.iterate[OF assms(1,2) this] Inr show ?thesis by simp
  qed
  from c assms(5) have p: "pages s url = None" "forms s url = None"
    by (auto simp: consistent_def dom_def subset_iff)
  from c assms(5) have n: "count_list (session_log s) url = 0"
    by (auto simp: consistent_def)
  have now: "url |\<in>| visited ?s'" "pages ?s' url = None" "forms ?s' url = None"
    "count_list (session_log ?s') url = 1" "queue ?s' = qs"
    "session_log ?s' = session_log s @ [url]"
    using p n by simp_all
  have later: "\<forall>s''. reachable E ?s' s'' \<longrightarrow>
              url |\<in>| visited s'' \<and> pages s'' url = None \<and> forms s'' url = None \<and>
              count_list (session_log s'') url = 1"
  proof (intro allI impI)
    fix s'' assume "reachable E ?s' s''"
    from reachable_visited_stable[OF this now(1)] now(2,3,4)
    show "url |\<in>| visited s'' \<and> pages s'' url = None \<and> forms s'' url = None \<and>
              count_list (session_log s'') url = 1" by simp
  qed
  from r now later show ?thesis by blast
qed

lemma demo_fail: "transport_failure (session_get demo_env (session_log demo_s1) ''http://h/a'')"
  by (simp add: transport_failure_def demo_get)

lemma demo_reach23: "reachable demo_env demo_s2 demo_s3"
  by (rule reachable.iterate[OF reachable.start demo_cond(3) demo_step3])

theorem failed_fetch_is_visited_once_witness:
  "reachable demo_env (Crawler_init ''http://h/'' 10 (Float 0)) demo_s1 \<and>
   loop_cond demo_s1 \<and> queue demo_s1 = [''http://h/a'', ''http://other.com/c''] \<and>
   ''http://h/a'' = rstrip {CHR ''/''} ''http://h/a'' \<and>
   ''http://h/a'' |\<notin>| visited demo_s1 \<and> is_same_domain demo_env (base demo_s1) ''http://h/a'' \<and>
   transport_failure (session_get demo_env (session_log demo_s1) ''http://h/a'') \<and>
   time_sleep demo_env (Float 0) = Inr () \<and>
   loop_body demo_env demo_s1 = Inr demo_s2 \<and>
   queue demo_s2 = [''http://other.com/c''] \<and>
   ''http://h/a'' |\<in>| visited demo_s2 \<and> pages demo_s2 ''http://h/a'' = None \<and>
   forms demo_s2 ''http://h/a'' = None \<and>
   reachable demo_env demo_s2 demo_s3 \<and>
   ''http://h/a'' |\<in>| visited demo_s3 \<and> pages demo_s3 ''http://h/a'' = None \<and>
   forms demo_s3 ''http://h/a'' = None \<and>
   count_list (session_log demo_s3) ''http://h/a'' = 1"
proof -
  have h: "queue demo_s1 = [''http://h/a'', ''http://other.com/c'']"
    "''http://h/a'' = rstrip {CHR ''/''} ''http://h/a''"
    "''http://h/a'' |\<notin>| visited demo_s1" "is_same_domain demo_env (base demo_s1) ''http://h/a''"
    by (simp_all add: demo_s1_def rstrip_def same_h)
  from failed_fetch_is_visited_once[OF demo_reach1 demo_cond(2) h(1,2,3,4) demo_fail]
    demo_step2 demo_reach23 demo_sleep(1)
  have "queue demo_s2 = [''http://other.com/c''] \<and>
   ''http://h/a'' |\<in>| visited demo_s2 \<and> pages demo_s2 ''http://h/a'' = None \<and>
   forms demo_s2 ''http://h/a'' = None \<and>
   ''http://h/a'' |\<in>| visited demo_s3 \<and> pages demo_s3 ''http://h/a'' = None \<and>
   forms demo_s3 ''http://h/a'' = None \<and>
   count_list (session_log demo_s3) ''http://h/a'' = 1"
    by auto
  with demo_reach1 h demo_cond(2) demo_fail demo_step2 demo_reach23 demo_sleep(1)
  show ?thesis by simp
qed

section \<open>The same-domain filter\<close>

text \<open>
  The first iteration of the sample run appends \<open>http://other.com/c\<close> to the queue,
  although its host is not the base's.
\<close>

theorem enqueued_cross_domain_counterexample:
  "loop_body demo_env (Crawler_init ''http://h/'' 10 (Float 0)) = Inr demo_s1 \<and>
   base demo_s1 = ''http://h'' \<and>
   queue demo_s1 = [''http://h/a'', ''http://other.com/c''] \<and>
   \<not> is_same_domain demo_env ''http://h'' ''http://other.com/c''"
  by (simp add: demo_init demo_step1 same_h) (simp add: demo_s1_def)

text \<open>
  C1, as amended. The filter stands at the dequeue, not at the enqueue: every URL that was
  requested, every visited URL and every key of the pages map passed the same-domain
  filter against the base URL; a queued URL of another domain is dropped when it is
  dequeued, without a request and without being marked visited.
\<close>

theorem only_same_domain_fetched:
  assumes "reachable E (Crawler_init b m d) s"
  shows "base s = rstrip {CHR ''/''} b \<and>
         (\<forall>u\<in>set (session_log s). is_same_domain E (base s) u) \<and>
         (\<forall>u. u |\<in>| visited s \<longrightarrow> is_same_domain E (base s) u) \<and>
         (\<forall>u. pages s u \<noteq> None \<longrightarrow> is_same_domain E (base s) u) \<and>
         (\<forall>q qs. queue s = q # qs \<and> \<not> is_same_domain E (base s) (rstrip {CHR ''/''} q) \<longrightarrow>
            loop_body E s = Inr (s\<lparr>queue := qs\<rparr>))"
proof -
  have c: "consistent E s" using reachable_consistent[OF assms consistent_init] .
  have "base s = rstrip {CHR ''/''} b"
    using reachable_config[OF assms] by (simp add: Crawler_init_def)
  moreover have "\<forall>u\<in>set (session_log s). is_same_domain E (base s) u"
    using c by (auto simp: consistent_def)
  moreover have "\<forall>u. u |\<in>| visited s \<longrightarrow> is_same_domain E (base s) u"
    using c by (auto simp: consistent_def)
  moreover have "\<forall>u. pages s u \<noteq> None \<longrightarrow> is_same_domain E (base s) u"
    using c by (auto simp: consistent_def dom_def subset_iff)
  moreover have "\<forall>q qs. queue s = q # qs \<and> \<not> is_same_domain E (base s) (rstrip {CHR ''/''} q) \<longrightarrow>
            loop_body E s = Inr (s\<lparr>queue := qs\<rparr>)"
    using loop_body_skip by blast
  ultimately show ?thesis by blast
qed

theorem only_same_domain_fetched_witness:
  "reachable demo_env (Crawler_init ''http://h/'' 10 (Float 0)) demo_s2 \<and>
   base demo_s2 = rstrip {CHR ''/''} ''http://h/'' \<and>
   session_log demo_s2 = [''http://h'', ''http://h/a''] \<and>
   is_same_domain demo_env (base demo_s2) ''http://h'' \<and>
   is_same_domain demo_env (base demo_s2) ''http://h/a'' \<and>
   queue demo_s2 = [''http://other.com/c''] \<and>
   \<not> is_same_domain demo_env (base demo_s2) (rstrip {CHR ''/''} ''http://other.com/c'') \<and>
   loop_body demo_env demo_s2 = Inr (demo_s2\<lparr>queue := []\<rparr>)"
proof -
  have h: "queue demo_s2 = [''http://other.com/c'']"
    "\<not> is_same_domain demo_env (base demo_s2) (rstrip {CHR ''/''} ''http://other.com/c'')"
    "session_log demo_s2 = [''http://h'', ''http://h/a'']"
    by (simp_all add: demo_s2_def rstrip_def same_h)
  from only_same_domain_fetched[OF demo_reach2] h
  have "base demo_s2 = rstrip {CHR ''/''} ''http://h/''"
    "is_same_domain demo_env (base demo_s2) ''http://h''"
    "is_same_domain demo_env (base demo_s2) ''http://h/a''"
    "loop_body demo_env demo_s2 = Inr (demo_s2\<lparr>queue := []\<rparr>)"
    by auto
  with demo_reach2 h show ?thesis by simp
qed

lemma parse_bracket: "urlparse E ''http://[::1'' sc = Inl ValueError"
  by (simp add: url_eval)

lemma unparsable_base_crawl:
  assumes "urlparse E (base s) [] = Inl e" "visited s = {||}" "pages s = Map.empty"
    "forms s = Map.empty" "length (queue s) \<le> 1" "session_log s = []"
  shows "\<exists>s'. crawl_loop E s = Inr s' \<and> session_log s' = [] \<and>
              crawl E s = Inr \<lparr>res_pages = Map.empty, res_forms = Map.empty\<rparr>"
proof (cases "loop_cond s")
  case False
  then show ?thesis using assms by (simp add: crawl_def crawl_loop.simps[of E s])
next
  case True
  then obtain q where q: "queue s = [q]" using assms(5)
    by (cases "queue s") (auto simp: loop_cond_def)
  have "\<not> is_same_domain E (base s) (rstrip {CHR ''/''} q)"
    using assms(1) by (simp add: is_same_domain_def)
  with loop_body_skip[OF q] have b: "loop_body E s = Inr (s\<lparr>queue := []\<rparr>)" by simp
  have "\<not> loop_cond (s\<lparr>queue := []\<rparr>)" by (simp add: loop_cond_def)
  then show ?thesis using True b assms
    by (simp add: crawl_def crawl_loop.simps[of E s] crawl_loop.simps[of E "s\<lparr>queue := []\<rparr>"])
qed

section \<open>Configuration errors\<close>

text \<open>
  The constructor accepts a base URL that \<open>urlparse\<close> rejects, and the crawl on it
  returns the empty result instead of failing.
\<close>

theorem unparsable_base_accepted_counterexample:
  "urlparse plain_env ''http://[::1'' [] = Inl ValueError \<and>
   base (Crawler_init ''http://[::1'' 200 (Float (1/5))) = ''http://[::1'' \<and>
   crawl plain_env (Crawler_init ''http://[::1'' 200 (Float (1/5))) =
     Inr \<lparr>res_pages = Map.empty, res_forms = Map.empty\<rparr>"
proof -
  have b: "base (Crawler_init ''http://[::1'' 200 (Float (1/5))) = ''http://[::1''"
    by (simp add: Crawler_init_def rstrip_def)
  have "urlparse plain_env (base (Crawler_init ''http://[::1'' 200 (Float (1/5)))) [] =
          Inl ValueError"
    by (simp only: b parse_bracket)
  from unparsable_base_crawl[OF this] b parse_bracket show ?thesis
    by (auto simp: Crawler_init_def)
qed

text \<open>
  C4, as amended. An unparsable base URL is not rejected: on a crawler constructed with a
  base URL that \<open>urlparse\<close> rejects, \<open>crawl\<close> makes no request and returns the empty
  result. The only condition that is fatal to the caller of \<open>crawl\<close> is a configured
  delay that \<open>time.sleep\<close> refuses: every error that \<open>crawl\<close> raises is the one
  \<open>time.sleep\<close> raises for that delay, from inside the loop.
\<close>

theorem only_refused_delay_is_fatal:
  "(\<forall>e. urlparse E (base (Crawler_init b m d)) [] = Inl e \<longrightarrow>
      (\<exists>s'. crawl_loop E (Crawler_init b m d) = Inr s' \<and> session_log s' = []) \<and>
      crawl E (Crawler_init b m d) = Inr \<lparr>res_pages = Map.empty, res_forms = Map.empty\<rparr>) \<and>
   (\<forall>x. crawl E (Crawler_init b m d) = Inl x \<longrightarrow> time_sleep E d = Inl x)"
proof
  show "\<forall>e. urlparse E (base (Crawler_init b m d)) [] = Inl e \<longrightarrow>
      (\<exists>s'. crawl_loop E (Crawler_init b m d) = Inr s' \<and> session_log s' = []) \<and>
      crawl E (Crawler_init b m d) = Inr \<lparr>res_pages = Map.empty, res_forms = Map.empty\<rparr>"
  proof (intro allI impI)
    fix e assume "urlparse E (base (Crawler_init b m d)) [] = Inl e"
    from unparsable_base_crawl[OF this]
    show "(\<exists>s'. crawl_loop E (Crawler_init b m d) = Inr s' \<and> session_log s' = []) \<and>
      crawl E (Crawler_init b m d) = Inr \<lparr>res_pages = Map.empty, res_forms = Map.empty\<rparr>"
      by (auto simp: Crawler_init_def)
  qed
next
  show "\<forall>x. crawl E (Crawler_init b m d) = Inl x \<longrightarrow> time_sleep E d = Inl x"
  proof (intro allI impI)
    fix x assume "crawl E (Crawler_init b m d) = Inl x"
    then obtain s' where "crawl_loop E (Crawler_init b m d) = Inl (x, s')"
      by (auto simp: crawl_def split: sum.splits)
    from crawl_loop_raises[OF this] show "time_sleep E d = Inl x"
      by (simp add: Crawler_init_def)
  qed
qed

theorem only_refused_delay_is_fatal_witness:
  "urlparse plain_env (base (Crawler_init ''http://[::1/'' 5 (Float 0))) [] = Inl ValueError \<and>
   crawl plain_env (Crawler_init ''http://[::1/'' 5 (Float 0)) =
     Inr \<lparr>res_pages = Map.empty, res_forms = Map.empty\<rparr> \<and>
   crawl demo_env (Crawler_init ''http://h/'' 10 NaN) = Inl ValueError \<and>
   time_sleep demo_env NaN = Inl ValueError"
proof -
  have p: "urlparse plain_env (base (Crawler_init ''http://[::1/'' 5 (Float 0))) [] = Inl ValueError"
    by (simp add: Crawler_init_def rstrip_def parse_bracket)
  from only_refused_delay_is_fatal[of plain_env "''http://[::1/''" 5 "Float 0"] p
  have 1: "crawl plain_env (Crawler_init ''http://[::1/'' 5 (Float 0)) =
     Inr \<lparr>res_pages = Map.empty, res_forms = Map.empty\<rparr>" by blast
  have 2: "crawl demo_env (Crawler_init ''http://h/'' 10 NaN) = Inl ValueError"
    by (rule demo_refused[OF demo_sleep(5)])
  from only_refused_delay_is_fatal[of demo_env "''http://h/''" 10 NaN] 2
  have 3: "time_sleep demo_env NaN = Inl ValueError" by blast
  from p 1 2 3 show ?thesis by simp
qed

section \<open>Fragments and trailing slashes\<close>

lemma lower_char_hash: "lower_char c = CHR ''#'' \<Longrightarrow> c = CHR ''#''"
  by (auto simp: lower_char_def Let_def char_of_eq_iff take_bit_eq_mod split: if_splits)

lemma lower_no_hash: "CHR ''#'' \<notin> set s \<Longrightarrow> CHR ''#'' \<notin> set (lower s)"
  by (auto simp: lower_def dest: lower_char_hash[OF sym])

lemma set_rstrip: "set (rstrip cs s) \<subseteq> set s"
  using set_dropWhileD[of _ "\<lambda>c. c \<in> cs" "rev s"] by (auto simp: rstrip_def)

lemma set_strip: "set (strip cs s) \<subseteq> set s"
  using set_rstrip[of cs "lstrip cs s"] set_dropWhileD[of _ "\<lambda>c. c \<in> cs" s]
  by (auto simp: strip_def lstrip_def)

lemma set_remove_unsafe: "set (remove_unsafe s) \<subseteq> set s"
  by (auto simp: remove_unsafe_def)

lemma set_split1: "set (fst (split1 c s)) \<subseteq> set s" "set (snd (split1 c s)) \<subseteq> set s"
  "c \<notin> set (fst (split1 c s))"
  by (auto simp: split1_def dest: set_takeWhileD set_dropWhileD in_set_dropD)

lemma find_from_prefix:
  assumes "find_from c url start = Some w" "d \<le> w"
  shows "c \<notin> set (take (d - start) (drop start url))"
proof -
  define tw where "tw = takeWhile (\<lambda>x. x \<noteq> c) (drop start url)"
  define dw where "dw = dropWhile (\<lambda>x. x \<noteq> c) (drop start url)"
  have split: "drop start url = tw @ dw" by (simp add: tw_def dw_def)
  from assms(1) have "w = start + length tw"
    by (simp add: find_from_def Let_def tw_def split: if_splits)
  with assms(2) have "d - start \<le> length tw" by simp
  then have "take (d - start) (drop start url) = take (d - start) tw"
    by (simp only: split take_append) simp
  moreover have "c \<notin> set tw" by (auto simp: tw_def dest: set_takeWhileD)
  ultimately show ?thesis by (auto dest: in_set_takeD)
qed

lemma splitnetloc_delim:
  "fold (\<lambda>c d. case find_from c url start of None \<Rightarrow> d | Some w \<Rightarrow> min d w) ''/?#'' (length url)
     \<le> (case find_from CHR ''#'' url start of None \<Rightarrow> length url | Some w \<Rightarrow> w)"
  by (auto split: option.splits)

lemma find_from_None:
  assumes "find_from c url start = None"
  shows "c \<notin> set (drop start url)"
proof
  assume m: "c \<in> set (drop start url)"
  define tw where "tw = takeWhile (\<lambda>x. x \<noteq> c) (drop start url)"
  define dw where "dw = dropWhile (\<lambda>x. x \<noteq> c) (drop start url)"
  have split: "drop start url = tw @ dw" by (simp add: tw_def dw_def)
  from m have "tw \<noteq> drop start url" by (auto simp: tw_def takeWhile_eq_all_conv)
  with split have "dw \<noteq> []" by auto
  with split have "length tw < length (drop start url)" by simp
  then have "start + length tw < length url" by simp
  with assms show False by (simp add: find_from_def Let_def tw_def)
qed

lemma splitnetloc_no_hash: "CHR ''#'' \<notin> set (fst (splitnetloc url start))"
proof (cases "find_from CHR ''#'' url start")
  case None
  from find_from_None[OF this] show ?thesis
    by (auto simp: splitnetloc_def Let_def dest: in_set_takeD)
next
  case (Some w)
  let ?d = "fold (\<lambda>c d. case find_from c url start of None \<Rightarrow> d | Some w \<Rightarrow> min d w) ''/?#'' (length url)"
  have "?d \<le> w" using splitnetloc_delim[of url start] Some by simp
  from find_from_prefix[OF Some this] show ?thesis by (simp add: splitnetloc_def Let_def)
qed

lemma scheme_char_not_hash: "scheme_char c \<Longrightarrow> c \<noteq> CHR ''#''"
  by (auto simp: scheme_char_def is_ascii_alpha_def Let_def)

lemma urlsplit_no_hash:
  assumes "urlsplit E url sc = Inr r" "CHR ''#'' \<notin> set sc"
  shows "CHR ''#'' \<notin> set (scheme r) \<and> CHR ''#'' \<notin> set (netloc r) \<and> CHR ''#'' \<notin> set (path r)
         \<and> CHR ''#'' \<notin> set (query r) \<and> params r = []"
proof -
  define url1 where "url1 = remove_unsafe (lstrip c0_control_or_space url)"
  define scheme1 where "scheme1 = remove_unsafe (strip c0_control_or_space sc)"
  define su where "su = (case find_from CHR '':'' url1 0 of
               None \<Rightarrow> (scheme1, url1)
             | Some i \<Rightarrow>
                 if 0 < i \<and> is_ascii_alpha (hd url1) \<and> list_all scheme_char (take i url1)
                 then (lower (take i url1), drop (Suc i) url1)
                 else (scheme1, url1))"
  define nu where "nu = (if take 2 (snd su) = ''//'' then splitnetloc (snd su) 2 else ([], snd su))"
  define uf where "uf = (if CHR ''#'' \<in> set (snd nu) then split1 CHR ''#'' (snd nu) else (snd nu, []))"
  define uq where "uq = (if CHR ''?'' \<in> set (fst uf) then split1 CHR ''?'' (fst uf) else (fst uf, []))"
  have "urlsplit E url sc = Inl ValueError \<or>
        urlsplit E url sc = Inr \<lparr>scheme = fst su, netloc = fst nu, path = fst uq, params = [],
                query = snd uq, fragment = snd uf\<rparr>"
    unfolding urlsplit_def su_def nu_def uf_def uq_def url1_def scheme1_def
    by (simp add: Let_def split_beta)
  with assms(1) have r: "r = \<lparr>scheme = fst su, netloc = fst nu, path = fst uq, params = [],
                query = snd uq, fragment = snd uf\<rparr>"
    by auto
  have s1: "CHR ''#'' \<notin> set scheme1"
    using assms(2) set_remove_unsafe set_strip unfolding scheme1_def by blast
  have sch: "CHR ''#'' \<notin> set (fst su)"
  proof (cases "find_from CHR '':'' url1 0")
    case None
    with s1 show ?thesis by (simp add: su_def)
  next
    case (Some i)
    show ?thesis
    proof (cases "0 < i \<and> is_ascii_alpha (hd url1) \<and> list_all scheme_char (take i url1)")
      case True
      then have "CHR ''#'' \<notin> set (take i url1)"
        using scheme_char_not_hash by (auto simp: list_all_iff)
      with True Some show ?thesis by (simp add: su_def lower_no_hash)
    next
      case False
      with Some s1 show ?thesis by (auto simp: su_def)
    qed
  qed
  have nl: "CHR ''#'' \<notin> set (fst nu)"
    by (simp add: nu_def splitnetloc_no_hash)
  have pf: "CHR ''#'' \<notin> set (fst uf)"
    using set_split1(3)[of "CHR ''#''" "snd nu"] by (simp add: uf_def)
  have "set (fst uq) \<subseteq> set (fst uf)" "set (snd uq) \<subseteq> set (fst uf)"
    using set_split1(1,2)[of "CHR ''?''" "fst uf"] by (auto simp: uq_def)
  with pf have "CHR ''#'' \<notin> set (fst uq)" "CHR ''#'' \<notin> set (snd uq)" by auto
  with sch nl r show ?thesis by simp
qed

lemma set_splitparams:
  "set (fst (splitparams u)) \<subseteq> set u" "set (snd (splitparams u)) \<subseteq> set u"
  by (auto simp: splitparams_def split: option.splits dest: in_set_takeD in_set_dropD)

lemma urlparse_no_hash:
  assumes "urlparse E url sc = Inr r" "CHR ''#'' \<notin> set sc"
  shows "CHR ''#'' \<notin> set (scheme r) \<and> CHR ''#'' \<notin> set (netloc r) \<and> CHR ''#'' \<notin> set (path r)
         \<and> CHR ''#'' \<notin> set (query r) \<and> CHR ''#'' \<notin> set (params r)"
proof -
  from assms(1) obtain r0 where r0: "urlsplit E url sc = Inr r0"
    by (auto simp: urlparse_def split: sum.splits)
  note n = urlsplit_no_hash[OF r0 assms(2)]
  show ?thesis
  proof (cases "scheme r0 \<in> set uses_params \<and> CHR '';'' \<in> set (path r0)")
    case False
    with assms(1) r0 have "r = r0" by (auto simp: urlparse_def)
    with n show ?thesis by simp
  next
    case True
    with assms(1) r0 have "r = r0\<lparr>path := fst (splitparams (path r0)), params := snd (splitparams (path r0))\<rparr>"
      by (auto simp: urlparse_def split_beta)
    with n set_splitparams[of "path r0"] show ?thesis by auto
  qed
qed

lemma urlunparse_no_hash:
  assumes "CHR ''#'' \<notin> set (scheme r)" "CHR ''#'' \<notin> set (netloc r)" "CHR ''#'' \<notin> set (path r)"
    "CHR ''#'' \<notin> set (query r)" "CHR ''#'' \<notin> set (params r)" "fragment r = []"
  shows "CHR ''#'' \<notin> set (urlunparse r)"
  using assms by (auto simp: urlunparse_def urlunsplit_def Let_def)

lemma urldefrag_no_hash:
  assumes "urldefrag E url = Inr d"
  shows "CHR ''#'' \<notin> set d"
proof (cases "CHR ''#'' \<in> set url")
  case False
  with assms show ?thesis by (simp add: urldefrag_def)
next
  case True
  with assms obtain r where r: "urlparse E url [] = Inr r" and d: "d = urlunparse (r\<lparr>fragment := []\<rparr>)"
    by (auto simp: urldefrag_def split: sum.splits)
  from urlparse_no_hash[OF r] have "CHR ''#'' \<notin> set (scheme r) \<and> CHR ''#'' \<notin> set (netloc r) \<and>
     CHR ''#'' \<notin> set (path r) \<and> CHR ''#'' \<notin> set (query r) \<and> CHR ''#'' \<notin> set (params r)" by simp
  then show ?thesis unfolding d by (intro urlunparse_no_hash) simp_all
qed

lemma rstrip_idem: "rstrip cs (rstrip cs s) = rstrip cs s"
  by (simp add: rstrip_def)

lemma rstrip_last: "rstrip cs s \<noteq> [] \<Longrightarrow> last (rstrip cs s) \<notin> cs"
proof -
  assume n: "rstrip cs s \<noteq> []"
  then have d: "dropWhile (\<lambda>c. c \<in> cs) (rev s) \<noteq> []" by (simp add: rstrip_def)
  then have "\<not> (hd (dropWhile (\<lambda>c. c \<in> cs) (rev s)) \<in> cs)" by (rule hd_dropWhile)
  with d show ?thesis by (simp add: rstrip_def last_rev)
qed

lemma normalize_url_result:
  assumes "normalize_url E u = Inr v"
  shows "CHR ''#'' \<notin> set v \<and> (v = [] \<or> last v \<noteq> CHR ''/'') \<and> normalize_url E v = Inr v"
proof -
  from assms obtain d where d: "urldefrag E u = Inr d" and v: "v = rstrip {CHR ''/''} d"
    by (auto simp: normalize_url_def split: sum.splits)
  from urldefrag_no_hash[OF d] set_rstrip[of "{CHR ''/''}" d] v have h: "CHR ''#'' \<notin> set v" by auto
  then have "normalize_url E v = Inr v"
    by (simp add: normalize_url_def urldefrag_def v rstrip_idem)
  moreover have "v = [] \<or> last v \<noteq> CHR ''/''" using rstrip_last[of "{CHR ''/''}" d] v by auto
  ultimately show ?thesis using h by simp
qed

text \<open>
  C9. Normalizing a link (dropping the fragment with \<open>urldefrag\<close>, then the trailing
  slashes) is idempotent: normalizing the result again gives the same result, and where
  the first normalization raises there is nothing to normalize again.
\<close>

theorem normalize_url_idempotent:
  "(case normalize_url E u of Inl e \<Rightarrow> Inl e | Inr v \<Rightarrow> normalize_url E v) = normalize_url E u"
proof (cases "normalize_url E u")
  case (Inl e)
  then show ?thesis by simp
next
  case (Inr v)
  with normalize_url_result[OF Inr] show ?thesis by simp
qed

text \<open>Three links: a query kept, trailing slashes dropped, an unbalanced bracket.\<close>

lemma normalize_url_example:
  "normalize_url E ''http://h/a/?q#frag'' = Inr ''http://h/a/?q''"
  "normalize_url E ''http://h/a//#frag'' = Inr ''http://h/a''"
  "normalize_url E ''http://[::1#frag'' = Inl ValueError"
  by (simp_all add: normalize_url_def urldefrag_def url_eval)

section \<open>Normalized keys\<close>

lemma parse_frag: "urlparse E ''http://h/#top'' sc = Inr \<lparr>scheme = ''http'', netloc = ''h'', path = ''/'',
   params = [], query = [], fragment = ''top''\<rparr>"
  by (simp add: url_eval)

lemma frag_step: "loop_body plain_env frag_s0 = Inr frag_s1"
proof -
  have q: "queue frag_s0 = [''http://h/#top'']" "''http://h/#top'' = rstrip {CHR ''/''} ''http://h/#top''"
    "''http://h/#top'' |\<notin>| visited frag_s0" "is_same_domain plain_env (base frag_s0) ''http://h/#top''"
    by (simp_all add: frag_s0_def rstrip_def is_same_domain_def parse_frag)
  have t: "try_block plain_env ''http://h/#top'' (frag_s0\<lparr>queue := []\<rparr>) =
      (frag_s1\<lparr>visited := {||}\<rparr>, None)"
    by (simp add: try_block_def plain_env_def raise_for_status_def extract_forms_def extract_links_def
        find_all_def find_all_href_def frag_s0_def frag_s1_def)
  from loop_body_process[OF q] t show ?thesis
    by (simp add: frag_s0_def frag_s1_def demo_sleep Let_def)
qed

text \<open>
  C5. The seed is stripped of trailing slashes only: with the seed \<open>http://h/#top\<close> the
  URL \<open>http://h/#top\<close>, fragment included, ends up in the visited set and as a key of
  the pages map.
\<close>

theorem seed_fragment_is_kept:
  "crawl_loop plain_env (Crawler_init ''http://h/#top'' 5 (Float 0)) = Inr frag_s1 \<and>
   visited frag_s1 = {|''http://h/#top''|} \<and>
   pages frag_s1 ''http://h/#top'' = Some ''<html>'' \<and>
   CHR ''#'' \<in> set ''http://h/#top''"
proof -
  have i: "Crawler_init ''http://h/#top'' 5 (Float 0) = frag_s0"
    by (simp add: Crawler_init_def frag_s0_def rstrip_def)
  have c: "loop_cond frag_s0" "\<not> loop_cond frag_s1"
    by (simp_all add: loop_cond_def frag_s0_def frag_s1_def fcard_fempty)
  have "crawl_loop plain_env frag_s0 = Inr frag_s1"
    by (simp add: crawl_loop.simps[of plain_env frag_s0] crawl_loop.simps[of plain_env frag_s1]
        c frag_step)
  then show ?thesis by (simp add: i) (simp add: frag_s1_def)
qed

text \<open>
  The seed is the only way in for a fragment: when the base URL given to the constructor
  holds no \<open>#\<close>, no queued URL has a fragment, and every visited URL and every key of
  the pages map is free of fragments and of trailing slashes.
\<close>

lemma visited_normalized_for_plain_seed:
  assumes "reachable E (Crawler_init b m d) s" "CHR ''#'' \<notin> set b"
  shows "(\<forall>q\<in>set (queue s). CHR ''#'' \<notin> set q) \<and>
         (\<forall>u. u |\<in>| visited s \<longrightarrow> CHR ''#'' \<notin> set u \<and> (u = [] \<or> last u \<noteq> CHR ''/'')) \<and>
         (\<forall>u. pages s u \<noteq> None \<longrightarrow> CHR ''#'' \<notin> set u \<and> (u = [] \<or> last u \<noteq> CHR ''/''))"
proof -
  have qv: "(\<forall>q\<in>set (queue s). CHR ''#'' \<notin> set q) \<and>
         (\<forall>u. u |\<in>| visited s \<longrightarrow> CHR ''#'' \<notin> set u \<and> (u = [] \<or> last u \<noteq> CHR ''/''))"
    using assms(1)
  proof (induction rule: reachable.induct)
    case start
    from assms(2) set_rstrip[of "{CHR ''/''}" b] show ?case
      by (auto simp: Crawler_init_def)
  next
    case (iterate s s')
    from iterate.hyps(3) show ?case
    proof (cases rule: loop_body_elim)
      case (skip q qs)
      with iterate.IH show ?thesis by simp
    next
      case (process q qs new)
      let ?u = "rstrip {CHR ''/''} q"
      from iterate.IH process(1) have "CHR ''#'' \<notin> set q" by simp
      with set_rstrip[of "{CHR ''/''}" q] have 1: "CHR ''#'' \<notin> set ?u" by auto
      have 2: "?u = [] \<or> last ?u \<noteq> CHR ''/''" using rstrip_last[of "{CHR ''/''}" q] by auto
      have 3: "\<forall>x\<in>set new. CHR ''#'' \<notin> set x"
        using process(11) normalize_url_result by blast
      from iterate.IH process(1,5,10) 1 2 3 show ?thesis by auto
    qed
  qed
  have "consistent E s" using reachable_consistent[OF assms(1) consistent_init] .
  then have "\<forall>u. pages s u \<noteq> None \<longrightarrow> u |\<in>| visited s"
    by (auto simp: consistent_def dom_def subset_iff)
  with qv show ?thesis by blast
qed

section \<open>Comparing domains\<close>














section \<open>Form extraction\<close>

lemma inputs_loop_map: "inputs_loop ts acc = acc @ map input_descriptor ts"
  by (induction ts arbitrary: acc) (simp_all add: input_descriptor_def)

lemma forms_loop_describes:
  "forms_loop E p fs acc = Inr res \<Longrightarrow> \<exists>ds. res = acc @ ds \<and> list_all2 (describes E p) fs ds"
proof (induction fs arbitrary: acc)
  case Nil
  then show ?case by simp
next
  case (Cons f fs)
  from Cons.prems obtain a where a: "resolved_action E p f = Inr a"
    and r: "forms_loop E p fs (acc @ [form_descriptor f a]) = Inr res"
    by (auto simp: resolved_action_def form_descriptor_def inputs_loop_map Let_def split: sum.splits)
  from Cons.IH[OF r] obtain ds where "res = (acc @ [form_descriptor f a]) @ ds"
    "list_all2 (describes E p) fs ds" by blast
  with a have "res = acc @ (form_descriptor f a # ds)"
    "list_all2 (describes E p) (f # fs) (form_descriptor f a # ds)"
    by (simp_all add: describes_def)
  then show ?case by blast
qed

lemma forms_loop_returns:
  "\<forall>f\<in>set fs. \<exists>a. resolved_action E p f = Inr a \<Longrightarrow> \<exists>res. forms_loop E p fs acc = Inr res"
  by (induction fs arbitrary: acc) (auto simp: resolved_action_def Let_def)

lemma join_p_submit: "urljoin E ''http://h/p'' ''/submit'' = Inr ''http://h/submit''"
  by (simp add: urljoin_def url_eval)

text \<open>
  C8. On a page whose parse is \<open>soup\<close>, the list that \<open>extract_forms\<close> returns has one
  descriptor per form element, in document order, each as the specification words it;
  it does return when every action resolves; a missing or empty action resolves to the
  page URL; and the form of the specification on page \<open>http://h/p\<close> yields exactly the
  one descriptor with method \<open>post\<close>, action \<open>http://h/submit\<close> and the input
  \<open>q\<close> of type \<open>text\<close> without a value.
\<close>

theorem extract_forms_descriptors:
  assumes "BeautifulSoup E html = Inr soup"
  shows "(\<forall>fs. extract_forms E html page_url = Inr fs \<longrightarrow>
            list_all2 (describes E page_url) (find_all [''form''] soup) fs) \<and>
         ((\<forall>f\<in>set (find_all [''form''] soup). \<exists>a. resolved_action E page_url f = Inr a) \<longrightarrow>
            (\<exists>fs. extract_forms E html page_url = Inr fs)) \<and>
         (\<forall>f. get_attr f ''action'' = None \<or> get_attr f ''action'' = Some [] \<longrightarrow>
            resolved_action E page_url f = Inr page_url) \<and>
         (html = form_example_html \<and> soup = form_example_soup \<longrightarrow>
            extract_forms E html ''http://h/p'' =
              Inr [\<lparr>form_method = ''post'', form_action = ''http://h/submit'',
                    form_inputs = [\<lparr>input_name = Some ''q'', input_type = Some ''text'',
                                     input_value = None\<rparr>]\<rparr>])"
proof (intro conjI allI impI)
  fix fs assume "extract_forms E html page_url = Inr fs"
  with assms have "forms_loop E page_url (find_all [''form''] soup) [] = Inr fs"
    by (simp add: extract_forms_def)
  from forms_loop_describes[OF this]
  show "list_all2 (describes E page_url) (find_all [''form''] soup) fs" by simp
next
  assume "\<forall>f\<in>set (find_all [''form''] soup). \<exists>a. resolved_action E page_url f = Inr a"
  from forms_loop_returns[OF this, of "[]"] assms
  show "\<exists>fs. extract_forms E html page_url = Inr fs" by (simp add: extract_forms_def)
next
  fix f assume "get_attr f ''action'' = None \<or> get_attr f ''action'' = Some []"
  then show "resolved_action E page_url f = Inr page_url"
    by (auto simp: resolved_action_def urljoin_def)
next
  assume "html = form_example_html \<and> soup = form_example_soup"
  with assms show "extract_forms E html ''http://h/p'' =
              Inr [\<lparr>form_method = ''post'', form_action = ''http://h/submit'',
                    form_inputs = [\<lparr>input_name = Some ''q'', input_type = Some ''text'',
                                     input_value = None\<rparr>]\<rparr>]"
    by (simp add: extract_forms_def form_example_soup_def find_all_def get_attr_def
        join_p_submit lower_def lower_char_def char_of_eq_iff)
qed

theorem extract_forms_descriptors_witness:
  "BeautifulSoup form_example_env form_example_html = Inr form_example_soup \<and>
   extract_forms form_example_env form_example_html ''http://h/p'' =
     Inr [\<lparr>form_method = ''post'', form_action = ''http://h/submit'',
           form_inputs = [\<lparr>input_name = Some ''q'', input_type = Some ''text'',
                            input_value = None\<rparr>]\<rparr>] \<and>
   list_all2 (describes form_example_env ''http://h/p'') (find_all [''form''] form_example_soup)
     [\<lparr>form_method = ''post'', form_action = ''http://h/submit'',
       form_inputs = [\<lparr>input_name = Some ''q'', input_type = Some ''text'',
                        input_value = None\<rparr>]\<rparr>] \<and>
   get_attr (Tag ''form'' Map.empty []) ''action'' = None \<and>
   resolved_action form_example_env ''http://h/p'' (Tag ''form'' Map.empty []) = Inr ''http://h/p''"
proof -
  have b: "BeautifulSoup form_example_env form_example_html = Inr form_example_soup"
    by (simp add: form_example_env_def)
  have g: "get_attr (Tag ''form'' Map.empty []) ''action'' = None" by (simp add: get_attr_def)
  note t = extract_forms_descriptors[OF b, of "''http://h/p''"]
  from t have e: "extract_forms form_example_env form_example_html ''http://h/p'' =
     Inr [\<lparr>form_method = ''post'', form_action = ''http://h/submit'',
           form_inputs = [\<lparr>input_name = Some ''q'', input_type = Some ''text'',
                            input_value = None\<rparr>]\<rparr>]" by blast
  with t have "list_all2 (describes form_example_env ''http://h/p'') (find_all [''form''] form_example_soup)
     [\<lparr>form_method = ''post'', form_action = ''http://h/submit'',
       form_inputs = [\<lparr>input_name = Some ''q'', input_type = Some ''text'',
                        input_value = None\<rparr>]\<rparr>]" by blast
  moreover from t g have "resolved_action form_example_env ''http://h/p'' (Tag ''form'' Map.empty []) = Inr ''http://h/p''"
    by blast
  ultimately show ?thesis using b e g by simp
qed


end
